theory Spec2Isabelle
  imports Main
begin

section \<open>JavaScript strings and numbers\<close>

text \<open>
  A JavaScript string is a sequence of UTF-16 code units; \<open>length\<close>, \<open>slice\<close> and a
  regular expression without the \<open>u\<close> flag all count code units. A code unit is
  written as its number (below 65536); a string is the list of its code units.
\<close>

type_synonym jsstring = "nat list"

definition js :: "string \<Rightarrow> jsstring" where
  "js s = map of_char s"

subsection \<open>\<open>String.prototype.toLowerCase\<close>\<close>

text \<open>
  \<open>toLowerCase\<close> reads the string as code points (a high surrogate followed by a low
  one is one code point, any other code unit stands for itself), replaces every code
  point by its lower-case mapping of the Unicode Character Database, and writes the
  result back as code units. The mapping is that of \<open>UnicodeData.txt\<close> and
  \<open>SpecialCasing.txt\<close>, here in version 14.0 of the database: one code point for one,
  except for U+0130, which becomes two, and for the capital sigma U+03A3, which becomes
  the final sigma U+03C2 at the end of a word and U+03C3 elsewhere. No locale is
  involved.
\<close>

text \<open>Basic Latin: the letters A to Z move by 32.\<close>

definition lower_unit :: "nat \<Rightarrow> nat" where
  "lower_unit c = (if 65 \<le> c \<and> c \<le> 90 then c + 32 else c)"

text \<open>Beyond Basic Latin: the code points with a lower-case mapping, in runs
  \<open>(first, last, step, distance)\<close>: every \<open>step\<close>-th code point from \<open>first\<close> to \<open>last\<close> maps
  to the code point \<open>distance\<close> further on.\<close>

definition lower_runs :: "(nat \<times> nat \<times> nat \<times> int) list" where
  "lower_runs = [
    (192, 214, 1, 32), (216, 222, 1, 32), (256, 302, 2, 1), (306, 310, 2, 1), (313, 327, 2, 1),
     (330, 374, 2, 1), (376, 376, 1, - 121), (377, 381, 2, 1), (385, 385, 1, 210),
     (386, 388, 2, 1), (390, 390, 1, 206), (391, 391, 1, 1), (393, 394, 1, 205),
     (395, 395, 1, 1), (398, 398, 1, 79), (399, 399, 1, 202), (400, 400, 1, 203),
     (401, 401, 1, 1), (403, 403, 1, 205), (404, 404, 1, 207), (406, 406, 1, 211),
     (407, 407, 1, 209), (408, 408, 1, 1), (412, 412, 1, 211), (413, 413, 1, 213),
     (415, 415, 1, 214), (416, 420, 2, 1), (422, 422, 1, 218), (423, 423, 1, 1),
     (425, 425, 1, 218), (428, 428, 1, 1), (430, 430, 1, 218), (431, 431, 1, 1),
     (433, 434, 1, 217), (435, 437, 2, 1), (439, 439, 1, 219), (440, 440, 1, 1),
     (444, 444, 1, 1), (452, 452, 1, 2), (453, 453, 1, 1), (455, 455, 1, 2), (456, 456, 1, 1),
     (458, 458, 1, 2), (459, 475, 2, 1), (478, 494, 2, 1), (497, 497, 1, 2), (498, 500, 2, 1),
     (502, 502, 1, - 97), (503, 503, 1, - 56), (504, 542, 2, 1), (544, 544, 1, - 130),
     (546, 562, 2, 1), (570, 570, 1, 10795), (571, 571, 1, 1), (573, 573, 1, - 163),
     (574, 574, 1, 10792), (577, 577, 1, 1), (579, 579, 1, - 195), (580, 580, 1, 69),
     (581, 581, 1, 71), (582, 590, 2, 1), (880, 882, 2, 1), (886, 886, 1, 1),
     (895, 895, 1, 116), (902, 902, 1, 38), (904, 906, 1, 37), (908, 908, 1, 64),
     (910, 911, 1, 63), (913, 929, 1, 32), (931, 939, 1, 32), (975, 975, 1, 8),
     (984, 1006, 2, 1), (1012, 1012, 1, - 60), (1015, 1015, 1, 1), (1017, 1017, 1, - 7),
     (1018, 1018, 1, 1), (1021, 1023, 1, - 130), (1024, 1039, 1, 80), (1040, 1071, 1, 32),
     (1120, 1152, 2, 1), (1162, 1214, 2, 1), (1216, 1216, 1, 15), (1217, 1229, 2, 1),
     (1232, 1326, 2, 1), (1329, 1366, 1, 48), (4256, 4293, 1, 7264), (4295, 4295, 1, 7264),
     (4301, 4301, 1, 7264), (5024, 5103, 1, 38864), (5104, 5109, 1, 8),
     (7312, 7354, 1, - 3008), (7357, 7359, 1, - 3008), (7680, 7828, 2, 1),
     (7838, 7838, 1, - 7615), (7840, 7934, 2, 1), (7944, 7951, 1, - 8), (7960, 7965, 1, - 8),
     (7976, 7983, 1, - 8), (7992, 7999, 1, - 8), (8008, 8013, 1, - 8), (8025, 8031, 2, - 8),
     (8040, 8047, 1, - 8), (8072, 8079, 1, - 8), (8088, 8095, 1, - 8), (8104, 8111, 1, - 8),
     (8120, 8121, 1, - 8), (8122, 8123, 1, - 74), (8124, 8124, 1, - 9), (8136, 8139, 1, - 86),
     (8140, 8140, 1, - 9), (8152, 8153, 1, - 8), (8154, 8155, 1, - 100), (8168, 8169, 1, - 8),
     (8170, 8171, 1, - 112), (8172, 8172, 1, - 7), (8184, 8185, 1, - 128),
     (8186, 8187, 1, - 126), (8188, 8188, 1, - 9), (8486, 8486, 1, - 7517),
     (8490, 8490, 1, - 8383), (8491, 8491, 1, - 8262), (8498, 8498, 1, 28),
     (8544, 8559, 1, 16), (8579, 8579, 1, 1), (9398, 9423, 1, 26), (11264, 11311, 1, 48),
     (11360, 11360, 1, 1), (11362, 11362, 1, - 10743), (11363, 11363, 1, - 3814),
     (11364, 11364, 1, - 10727), (11367, 11371, 2, 1), (11373, 11373, 1, - 10780),
     (11374, 11374, 1, - 10749), (11375, 11375, 1, - 10783), (11376, 11376, 1, - 10782),
     (11378, 11378, 1, 1), (11381, 11381, 1, 1), (11390, 11391, 1, - 10815),
     (11392, 11490, 2, 1), (11499, 11501, 2, 1), (11506, 11506, 1, 1), (42560, 42604, 2, 1),
     (42624, 42650, 2, 1), (42786, 42798, 2, 1), (42802, 42862, 2, 1), (42873, 42875, 2, 1),
     (42877, 42877, 1, - 35332), (42878, 42886, 2, 1), (42891, 42891, 1, 1),
     (42893, 42893, 1, - 42280), (42896, 42898, 2, 1), (42902, 42920, 2, 1),
     (42922, 42922, 1, - 42308), (42923, 42923, 1, - 42319), (42924, 42924, 1, - 42315),
     (42925, 42925, 1, - 42305), (42926, 42926, 1, - 42308), (42928, 42928, 1, - 42258),
     (42929, 42929, 1, - 42282), (42930, 42930, 1, - 42261), (42931, 42931, 1, 928),
     (42932, 42946, 2, 1), (42948, 42948, 1, - 48), (42949, 42949, 1, - 42307),
     (42950, 42950, 1, - 35384), (42951, 42953, 2, 1), (42960, 42960, 1, 1),
     (42966, 42968, 2, 1), (42997, 42997, 1, 1), (65313, 65338, 1, 32), (66560, 66599, 1, 40),
     (66736, 66771, 1, 40), (66928, 66938, 1, 39), (66940, 66954, 1, 39),
     (66956, 66962, 1, 39), (66964, 66965, 1, 39), (68736, 68786, 1, 64),
     (71840, 71871, 1, 32), (93760, 93791, 1, 32), (125184, 125217, 1, 34)]"

definition lower_point :: "nat \<Rightarrow> nat list" where
  "lower_point cp =
     (if cp < 128 then [lower_unit cp]
      else if cp = 304 then [105, 775]
      else (case find (\<lambda>(lo, hi, step, distance).
                         lo \<le> cp \<and> cp \<le> hi \<and> (cp - lo) mod step = 0) lower_runs of
              None \<Rightarrow> [cp]
            | Some (lo, hi, step, distance) \<Rightarrow> [nat (int cp + distance)]))"

text \<open>The context of a capital sigma is read past the case-ignorable code points
  (ranges of the property \<open>Case_Ignorable\<close>); what is found there counts as a letter when
  it is cased (ranges of the property \<open>Cased\<close>, without the case-ignorable ones).\<close>

definition case_ignorable_ranges :: "(nat \<times> nat) list" where
  "case_ignorable_ranges = [
    (39, 39), (46, 46), (58, 58), (94, 94), (96, 96), (168, 168), (173, 173), (175, 175),
     (180, 180), (183, 184), (688, 879), (884, 885), (890, 890), (900, 901), (903, 903),
     (1155, 1161), (1369, 1369), (1375, 1375), (1425, 1469), (1471, 1471), (1473, 1474),
     (1476, 1477), (1479, 1479), (1524, 1524), (1536, 1541), (1552, 1562), (1564, 1564),
     (1600, 1600), (1611, 1631), (1648, 1648), (1750, 1757), (1759, 1768), (1770, 1773),
     (1807, 1807), (1809, 1809), (1840, 1866), (1958, 1968), (2027, 2037), (2042, 2042),
     (2045, 2045), (2070, 2093), (2137, 2139), (2184, 2184), (2192, 2193), (2200, 2207),
     (2249, 2306), (2362, 2362), (2364, 2364), (2369, 2376), (2381, 2381), (2385, 2391),
     (2402, 2403), (2417, 2417), (2433, 2433), (2492, 2492), (2497, 2500), (2509, 2509),
     (2530, 2531), (2558, 2558), (2561, 2562), (2620, 2620), (2625, 2626), (2631, 2632),
     (2635, 2637), (2641, 2641), (2672, 2673), (2677, 2677), (2689, 2690), (2748, 2748),
     (2753, 2757), (2759, 2760), (2765, 2765), (2786, 2787), (2810, 2815), (2817, 2817),
     (2876, 2876), (2879, 2879), (2881, 2884), (2893, 2893), (2901, 2902), (2914, 2915),
     (2946, 2946), (3008, 3008), (3021, 3021), (3072, 3072), (3076, 3076), (3132, 3132),
     (3134, 3136), (3142, 3144), (3146, 3149), (3157, 3158), (3170, 3171), (3201, 3201),
     (3260, 3260), (3263, 3263), (3270, 3270), (3276, 3277), (3298, 3299), (3328, 3329),
     (3387, 3388), (3393, 3396), (3405, 3405), (3426, 3427), (3457, 3457), (3530, 3530),
     (3538, 3540), (3542, 3542), (3633, 3633), (3636, 3642), (3654, 3662), (3761, 3761),
     (3764, 3772), (3782, 3782), (3784, 3789), (3864, 3865), (3893, 3893), (3895, 3895),
     (3897, 3897), (3953, 3966), (3968, 3972), (3974, 3975), (3981, 3991), (3993, 4028),
     (4038, 4038), (4141, 4144), (4146, 4151), (4153, 4154), (4157, 4158), (4184, 4185),
     (4190, 4192), (4209, 4212), (4226, 4226), (4229, 4230), (4237, 4237), (4253, 4253),
     (4348, 4348), (4957, 4959), (5906, 5908), (5938, 5939), (5970, 5971), (6002, 6003),
     (6068, 6069), (6071, 6077), (6086, 6086), (6089, 6099), (6103, 6103), (6109, 6109),
     (6155, 6159), (6211, 6211), (6277, 6278), (6313, 6313), (6432, 6434), (6439, 6440),
     (6450, 6450), (6457, 6459), (6679, 6680), (6683, 6683), (6742, 6742), (6744, 6750),
     (6752, 6752), (6754, 6754), (6757, 6764), (6771, 6780), (6783, 6783), (6823, 6823),
     (6832, 6862), (6912, 6915), (6964, 6964), (6966, 6970), (6972, 6972), (6978, 6978),
     (7019, 7027), (7040, 7041), (7074, 7077), (7080, 7081), (7083, 7085), (7142, 7142),
     (7144, 7145), (7149, 7149), (7151, 7153), (7212, 7219), (7222, 7223), (7288, 7293),
     (7376, 7378), (7380, 7392), (7394, 7400), (7405, 7405), (7412, 7412), (7416, 7417),
     (7468, 7530), (7544, 7544), (7579, 7679), (8125, 8125), (8127, 8129), (8141, 8143),
     (8157, 8159), (8173, 8175), (8189, 8190), (8203, 8207), (8216, 8217), (8228, 8228),
     (8231, 8231), (8234, 8238), (8288, 8292), (8294, 8303), (8305, 8305), (8319, 8319),
     (8336, 8348), (8400, 8432), (11388, 11389), (11503, 11505), (11631, 11631),
     (11647, 11647), (11744, 11775), (11823, 11823), (12293, 12293), (12330, 12333),
     (12337, 12341), (12347, 12347), (12441, 12446), (12540, 12542), (40981, 40981),
     (42232, 42237), (42508, 42508), (42607, 42610), (42612, 42621), (42623, 42623),
     (42652, 42655), (42736, 42737), (42752, 42785), (42864, 42864), (42888, 42890),
     (42994, 42996), (43000, 43001), (43010, 43010), (43014, 43014), (43019, 43019),
     (43045, 43046), (43052, 43052), (43204, 43205), (43232, 43249), (43263, 43263),
     (43302, 43309), (43335, 43345), (43392, 43394), (43443, 43443), (43446, 43449),
     (43452, 43453), (43471, 43471), (43493, 43494), (43561, 43566), (43569, 43570),
     (43573, 43574), (43587, 43587), (43596, 43596), (43632, 43632), (43644, 43644),
     (43696, 43696), (43698, 43700), (43703, 43704), (43710, 43711), (43713, 43713),
     (43741, 43741), (43756, 43757), (43763, 43764), (43766, 43766), (43867, 43871),
     (43881, 43883), (44005, 44005), (44008, 44008), (44013, 44013), (64286, 64286),
     (64434, 64450), (65024, 65039), (65043, 65043), (65056, 65071), (65106, 65106),
     (65109, 65109), (65279, 65279), (65287, 65287), (65294, 65294), (65306, 65306),
     (65342, 65342), (65344, 65344), (65392, 65392), (65438, 65439), (65507, 65507),
     (65529, 65531), (66045, 66045), (66272, 66272), (66422, 66426), (67456, 67461),
     (67463, 67504), (67506, 67514), (68097, 68099), (68101, 68102), (68108, 68111),
     (68152, 68154), (68159, 68159), (68325, 68326), (68900, 68903), (69291, 69292),
     (69446, 69456), (69506, 69509), (69633, 69633), (69688, 69702), (69744, 69744),
     (69747, 69748), (69759, 69761), (69811, 69814), (69817, 69818), (69821, 69821),
     (69826, 69826), (69837, 69837), (69888, 69890), (69927, 69931), (69933, 69940),
     (70003, 70003), (70016, 70017), (70070, 70078), (70089, 70092), (70095, 70095),
     (70191, 70193), (70196, 70196), (70198, 70199), (70206, 70206), (70367, 70367),
     (70371, 70378), (70400, 70401), (70459, 70460), (70464, 70464), (70502, 70508),
     (70512, 70516), (70712, 70719), (70722, 70724), (70726, 70726), (70750, 70750),
     (70835, 70840), (70842, 70842), (70847, 70848), (70850, 70851), (71090, 71093),
     (71100, 71101), (71103, 71104), (71132, 71133), (71219, 71226), (71229, 71229),
     (71231, 71232), (71339, 71339), (71341, 71341), (71344, 71349), (71351, 71351),
     (71453, 71455), (71458, 71461), (71463, 71467), (71727, 71735), (71737, 71738),
     (71995, 71996), (71998, 71998), (72003, 72003), (72148, 72151), (72154, 72155),
     (72160, 72160), (72193, 72202), (72243, 72248), (72251, 72254), (72263, 72263),
     (72273, 72278), (72281, 72283), (72330, 72342), (72344, 72345), (72752, 72758),
     (72760, 72765), (72767, 72767), (72850, 72871), (72874, 72880), (72882, 72883),
     (72885, 72886), (73009, 73014), (73018, 73018), (73020, 73021), (73023, 73029),
     (73031, 73031), (73104, 73105), (73109, 73109), (73111, 73111), (73459, 73460),
     (78896, 78904), (92912, 92916), (92976, 92982), (92992, 92995), (94031, 94031),
     (94095, 94111), (94176, 94177), (94179, 94180), (110576, 110579), (110581, 110587),
     (110589, 110590), (113821, 113822), (113824, 113827), (118528, 118573), (118576, 118598),
     (119143, 119145), (119155, 119170), (119173, 119179), (119210, 119213), (119362, 119364),
     (121344, 121398), (121403, 121452), (121461, 121461), (121476, 121476), (121499, 121503),
     (121505, 121519), (122880, 122886), (122888, 122904), (122907, 122913), (122915, 122916),
     (122918, 122922), (123184, 123197), (123566, 123566), (123628, 123631), (125136, 125142),
     (125252, 125259), (127995, 127999), (917505, 917505), (917536, 917631), (917760, 917999)]"

definition cased_ranges :: "(nat \<times> nat) list" where
  "cased_ranges = [
    (65, 90), (97, 122), (170, 170), (181, 181), (186, 186), (192, 214), (216, 246),
     (248, 442), (444, 447), (452, 659), (661, 687), (880, 883), (886, 887), (891, 893),
     (895, 895), (902, 902), (904, 906), (908, 908), (910, 929), (931, 1013), (1015, 1153),
     (1162, 1327), (1329, 1366), (1376, 1416), (4256, 4293), (4295, 4295), (4301, 4301),
     (4304, 4346), (4349, 4351), (5024, 5109), (5112, 5117), (7296, 7304), (7312, 7354),
     (7357, 7359), (7424, 7467), (7531, 7543), (7545, 7578), (7680, 7957), (7960, 7965),
     (7968, 8005), (8008, 8013), (8016, 8023), (8025, 8025), (8027, 8027), (8029, 8029),
     (8031, 8061), (8064, 8116), (8118, 8124), (8126, 8126), (8130, 8132), (8134, 8140),
     (8144, 8147), (8150, 8155), (8160, 8172), (8178, 8180), (8182, 8188), (8450, 8450),
     (8455, 8455), (8458, 8467), (8469, 8469), (8473, 8477), (8484, 8484), (8486, 8486),
     (8488, 8488), (8490, 8493), (8495, 8500), (8505, 8505), (8508, 8511), (8517, 8521),
     (8526, 8526), (8544, 8575), (8579, 8580), (9398, 9449), (11264, 11387), (11390, 11492),
     (11499, 11502), (11506, 11507), (11520, 11557), (11559, 11559), (11565, 11565),
     (42560, 42605), (42624, 42651), (42786, 42863), (42865, 42887), (42891, 42894),
     (42896, 42954), (42960, 42961), (42963, 42963), (42965, 42969), (42997, 42998),
     (43002, 43002), (43824, 43866), (43872, 43880), (43888, 43967), (64256, 64262),
     (64275, 64279), (65313, 65338), (65345, 65370), (66560, 66639), (66736, 66771),
     (66776, 66811), (66928, 66938), (66940, 66954), (66956, 66962), (66964, 66965),
     (66967, 66977), (66979, 66993), (66995, 67001), (67003, 67004), (68736, 68786),
     (68800, 68850), (71840, 71903), (93760, 93823), (119808, 119892), (119894, 119964),
     (119966, 119967), (119970, 119970), (119973, 119974), (119977, 119980), (119982, 119993),
     (119995, 119995), (119997, 120003), (120005, 120069), (120071, 120074), (120077, 120084),
     (120086, 120092), (120094, 120121), (120123, 120126), (120128, 120132), (120134, 120134),
     (120138, 120144), (120146, 120485), (120488, 120512), (120514, 120538), (120540, 120570),
     (120572, 120596), (120598, 120628), (120630, 120654), (120656, 120686), (120688, 120712),
     (120714, 120744), (120746, 120770), (120772, 120779), (122624, 122633), (122635, 122654),
     (125184, 125251), (127280, 127305), (127312, 127337), (127344, 127369)]"

definition case_ignorable :: "nat \<Rightarrow> bool" where
  "case_ignorable cp = list_ex (\<lambda>(lo, hi). lo \<le> cp \<and> cp \<le> hi) case_ignorable_ranges"

definition cased :: "nat \<Rightarrow> bool" where
  "cased cp = list_ex (\<lambda>(lo, hi). lo \<le> cp \<and> cp \<le> hi) cased_ranges"

text \<open>A capital sigma is final when a cased letter precedes it and none follows it.
  \<open>before\<close> holds the code points before it, the nearest first.\<close>

definition final_sigma :: "nat list \<Rightarrow> nat list \<Rightarrow> bool" where
  "final_sigma before after =
     ((case dropWhile case_ignorable before of [] \<Rightarrow> False | b # _ \<Rightarrow> cased b)
      \<and> (case dropWhile case_ignorable after of [] \<Rightarrow> True | a # _ \<Rightarrow> \<not> cased a))"

fun lower_points :: "nat list \<Rightarrow> nat list \<Rightarrow> nat list" where
  "lower_points before [] = []"
| "lower_points before (cp # after) =
     (if cp = 931 then [if final_sigma before after then 962 else 963] else lower_point cp)
     @ lower_points (cp # before) after"

text \<open>Code units to code points and back.\<close>

fun code_points :: "nat list \<Rightarrow> nat list" where
  "code_points (h # l # rest) =
     (if 55296 \<le> h \<and> h \<le> 56319 \<and> 56320 \<le> l \<and> l \<le> 57343
      then (65536 + (h - 55296) * 1024 + (l - 56320)) # code_points rest
      else h # code_points (l # rest))"
| "code_points [h] = [h]"
| "code_points [] = []"

definition code_units :: "nat \<Rightarrow> nat list" where
  "code_units cp =
     (if cp < 65536 then [cp]
      else [55296 + (cp - 65536) div 1024, 56320 + (cp - 65536) mod 1024])"

definition toLowerCase :: "jsstring \<Rightarrow> jsstring" where
  "toLowerCase s = concat (map code_units (lower_points [] (code_points s)))"

text \<open>A string of Basic Latin code units. Addresses, hex payloads and the keywords this
  program compares against are such strings.\<close>

definition ascii :: "jsstring \<Rightarrow> bool" where
  "ascii s = list_all (\<lambda>c. c < 128) s"

text \<open>\<open>padStart(n, fill)\<close> and \<open>padEnd(n, fill)\<close>: the filler is repeated and cut to
  the missing length; a string already long enough is returned unchanged.\<close>

definition padStart :: "nat \<Rightarrow> jsstring \<Rightarrow> jsstring \<Rightarrow> jsstring" where
  "padStart n fill s =
     take (n - length s) (concat (replicate (n - length s) fill)) @ s"

definition padEnd :: "nat \<Rightarrow> jsstring \<Rightarrow> jsstring \<Rightarrow> jsstring" where
  "padEnd n fill s =
     s @ take (n - length s) (concat (replicate (n - length s) fill))"

text \<open>\<open>slice(a, b)\<close> on strings and arrays: a negative index counts from the end,
  both indices are clamped to the length, and an empty range gives the empty result.\<close>

definition slice :: "'a list \<Rightarrow> int \<Rightarrow> int \<Rightarrow> 'a list" where
  "slice s a b =
     (let len = int (length s);
          lo = (if a < 0 then max (len + a) 0 else min a len);
          hi = (if b < 0 then max (len + b) 0 else min b len)
      in take (nat (hi - lo)) (drop (nat lo) s))"

definition slice_from :: "'a list \<Rightarrow> int \<Rightarrow> 'a list" where
  "slice_from s a = slice s a (int (length s))"

definition startsWith :: "jsstring \<Rightarrow> jsstring \<Rightarrow> bool" where
  "startsWith s p = (take (length p) s = p)"

definition endsWith :: "jsstring \<Rightarrow> jsstring \<Rightarrow> bool" where
  "endsWith s p = (length p \<le> length s \<and> drop (length s - length p) s = p)"

text \<open>\<open>indexOf\<close>: the position of the first occurrence, \<open>None\<close> for JavaScript's -1.\<close>

fun indexOf_from :: "nat \<Rightarrow> jsstring \<Rightarrow> jsstring \<Rightarrow> nat option" where
  "indexOf_from i [] p = (if p = [] then Some i else None)"
| "indexOf_from i (c # cs) p =
     (if startsWith (c # cs) p then Some i else indexOf_from (Suc i) cs p)"

definition indexOf :: "jsstring \<Rightarrow> jsstring \<Rightarrow> nat option" where
  "indexOf s p = indexOf_from 0 s p"

definition includes_str :: "jsstring \<Rightarrow> jsstring \<Rightarrow> bool" where
  "includes_str s p = (indexOf s p \<noteq> None)"

text \<open>\<open>replace(pattern, replacement)\<close> with a string pattern replaces the first
  occurrence only.\<close>

definition replace :: "jsstring \<Rightarrow> jsstring \<Rightarrow> jsstring \<Rightarrow> jsstring" where
  "replace s p r =
     (case indexOf s p of
        None \<Rightarrow> s
      | Some i \<Rightarrow> take i s @ r @ drop (i + length p) s)"

section \<open>Name sanitization (background.js)\<close>

definition MAX_NAME_LENGTH :: nat where
  "MAX_NAME_LENGTH = 64"

text \<open>The character class of the regular expression in \<open>sanitizeName\<close>:
  \<^verbatim>\<open>[\u0000-\u001F\u007F-\u009F\u200B-\u200F\u202A-\u202E\u2060-\u2069\uFEFF]\<close>.\<close>

definition stripped :: "nat \<Rightarrow> bool" where
  "stripped c =
     (c \<le> 0x1F \<or> (0x7F \<le> c \<and> c \<le> 0x9F) \<or> (0x200B \<le> c \<and> c \<le> 0x200F)
      \<or> (0x202A \<le> c \<and> c \<le> 0x202E) \<or> (0x2060 \<le> c \<and> c \<le> 0x2069) \<or> c = 0xFEFF)"

text \<open>\<open>sanitizeName\<close>: the global replace deletes every code unit of the class;
  an empty remainder is falsy and gives \<open>null\<close> (\<open>None\<close>).\<close>

definition sanitizeName :: "jsstring \<Rightarrow> jsstring option" where
  "sanitizeName name =
     (let cleaned = filter (\<lambda>c. \<not> stripped c) name
      in if cleaned = [] then None
         else Some (if length cleaned > MAX_NAME_LENGTH
                    then slice cleaned 0 (int MAX_NAME_LENGTH) else cleaned))"


text \<open>The denylist as the specification words it: the ranges U+0000..U+001F,
  U+007F..U+009F, U+200B..U+200F, U+202A..U+202E, U+2060..U+2069, and U+FEFF.\<close>

definition denylist :: "nat set" where
  "denylist = {0..0x1F} \<union> {0x7F..0x9F} \<union> {0x200B..0x200F} \<union> {0x202A..0x202E}
     \<union> {0x2060..0x2069} \<union> {0xFEFF}"

section \<open>Errors and arrays\<close>

text \<open>Exceptions are values. \<open>RangeError\<close> and \<open>TypeError\<close> are the language's own;
  \<open>NetworkError\<close> stands for a rejected \<open>fetch\<close> or a response body that \<open>res.json()\<close>
  cannot parse.\<close>

datatype error = RangeError | TypeError | NetworkError

definition err_bind :: "error + 'a \<Rightarrow> ('a \<Rightarrow> error + 'b) \<Rightarrow> error + 'b" where
  "err_bind m f = (case m of Inl e \<Rightarrow> Inl e | Inr v \<Rightarrow> f v)"

text \<open>An array holds at most \<open>2^32 - 1\<close> elements: \<open>Array.prototype.push\<close> on an array
  of that length throws a \<open>RangeError\<close> when it sets the new length. The check is
  written out where a function builds an array longer than the array or string it
  was given (\<open>encodeMulticall\<close>, \<open>decodeAggregate3\<close>); an array that is filled from
  an input array, one element at most for each of its elements, cannot reach the
  limit and is written with \<open>@\<close>.\<close>

definition MAX_ARRAY_LENGTH :: nat where
  "MAX_ARRAY_LENGTH = 4294967295"

definition push :: "'a list \<Rightarrow> 'a \<Rightarrow> error + 'a list" where
  "push xs x = (if length xs < MAX_ARRAY_LENGTH then Inr (xs @ [x]) else Inl RangeError)"

text \<open>A \<open>for\<close> loop over a range or over the elements of an array, with the loop's
  variables as the state; an exception leaves the loop.\<close>

fun for_each :: "('a \<Rightarrow> 's \<Rightarrow> error + 's) \<Rightarrow> 'a list \<Rightarrow> 's \<Rightarrow> error + 's" where
  "for_each body [] s = Inr s"
| "for_each body (x # xs) s =
     (case body x s of Inl e \<Rightarrow> Inl e | Inr s' \<Rightarrow> for_each body xs s')"

section \<open>ABI encoding (background.js)\<close>

definition WNS_CONTRACT :: jsstring where
  "WNS_CONTRACT = js ''0x0000000000696760E15f265e828DB644A0c242EB''"

definition MULTICALL3 :: jsstring where
  "MULTICALL3 = js ''0xcA11bde05977b3631167028862bE2a173976CA11''"

definition REVERSE_RESOLVE_SELECTOR :: jsstring where
  "REVERSE_RESOLVE_SELECTOR = js ''0x9af8b7aa''"

definition AGGREGATE3_SELECTOR :: jsstring where
  "AGGREGATE3_SELECTOR = js ''0x82ad56cb''"

text \<open>Hex chars per 32-byte ABI word.\<close>

definition W :: nat where
  "W = 64"

definition pad32 :: "jsstring \<Rightarrow> jsstring" where
  "pad32 hex = padStart W (js ''0'') hex"

text \<open>\<open>Number.prototype.toString(16)\<close> on a non-negative integer: lower-case digits,
  most significant first, no leading zero.\<close>

definition hexdigit :: "nat \<Rightarrow> nat" where
  "hexdigit d = (if d < 10 then 48 + d else 87 + d)"

fun toString16 :: "nat \<Rightarrow> jsstring" where
  "toString16 n = (if n < 16 then [hexdigit n] else toString16 (n div 16) @ [hexdigit (n mod 16)])"

declare toString16.simps [simp del]

definition encodeReverseResolve :: "jsstring \<Rightarrow> jsstring" where
  "encodeReverseResolve address =
     (let addr = replace (toLowerCase address) (js ''0x'') []
      in REVERSE_RESOLVE_SELECTOR @ pad32 addr)"

definition ELEMENT_WORDS :: nat where
  "ELEMENT_WORDS = 6"

definition push_element :: "jsstring \<Rightarrow> jsstring \<Rightarrow> jsstring list \<Rightarrow> error + jsstring list" where
  "push_element wnsTarget addr words =
     (let cd = slice_from (encodeReverseResolve addr) 2
      in err_bind (push words (pad32 wnsTarget)) (\<lambda>words.
         err_bind (push words (pad32 (js ''1''))) (\<lambda>words.
         err_bind (push words (pad32 (js ''60''))) (\<lambda>words.
         err_bind (push words (pad32 (js ''24''))) (\<lambda>words.
         err_bind (push words (slice cd 0 (int W))) (\<lambda>words.
         push words (padEnd W (js ''0'') (slice_from cd (int W)))))))))"

definition encodeMulticall :: "jsstring list \<Rightarrow> error + jsstring" where
  "encodeMulticall addresses =
     (let n = length addresses
      in err_bind (push [] (pad32 (js ''20''))) (\<lambda>words.
         err_bind (push words (pad32 (toString16 n))) (\<lambda>words.
         err_bind (for_each (\<lambda>i words.
                     push words (pad32 (toString16 (n * 32 + i * ELEMENT_WORDS * 32))))
                   [0..<n] words) (\<lambda>words.
         let wnsTarget = replace (toLowerCase WNS_CONTRACT) (js ''0x'') []
         in err_bind (for_each (push_element wnsTarget) addresses words) (\<lambda>words.
            Inr (AGGREGATE3_SELECTOR @ concat words))))))"

text \<open>The address check of the message listener, \<^verbatim>\<open>/^0x[0-9a-fA-F]{40}$/\<close>.\<close>

definition is_hex :: "nat \<Rightarrow> bool" where
  "is_hex c = ((48 \<le> c \<and> c \<le> 57) \<or> (65 \<le> c \<and> c \<le> 70) \<or> (97 \<le> c \<and> c \<le> 102))"

definition VALID_ADDR :: "jsstring \<Rightarrow> bool" where
  "VALID_ADDR a = (length a = 42 \<and> take 2 a = js ''0x'' \<and> list_all is_hex (drop 2 a))"


subsection \<open>The layout of the call data, in the specification's words\<close>

text \<open>A word is 32 bytes, written as 64 hex digits; \<open>abi_word v\<close> is the word whose
  value is \<open>v\<close>, digit by digit. \<open>address_word a\<close> is the address \<open>a\<close> in lower case,
  without its \<open>0x\<close> marker, left-padded with zeros to a word. \<open>call3_tuple a\<close> is the
  six-word element for the input address \<open>a\<close>, and \<open>multicall_layout\<close> the whole call
  data: selector, head, offsets, elements.\<close>

definition abi_word :: "nat \<Rightarrow> jsstring" where
  "abi_word v = map (\<lambda>k. hexdigit ((v div 16 ^ (63 - k)) mod 16)) [0..<64]"

definition address_word :: "jsstring \<Rightarrow> jsstring" where
  "address_word a = replicate 24 (of_char CHR ''0'') @ toLowerCase (drop 2 a)"

definition call3_tuple :: "jsstring \<Rightarrow> jsstring" where
  "call3_tuple a =
     address_word WNS_CONTRACT @ abi_word 1 @ abi_word 0x60 @ abi_word 0x24
     @ (js ''9af8b7aa'' @ address_word a) @ replicate 56 (of_char CHR ''0'')"

definition multicall_layout :: "jsstring list \<Rightarrow> jsstring" where
  "multicall_layout addresses =
     (let N = length addresses
      in js ''0x82ad56cb'' @ abi_word 0x20 @ abi_word N
         @ concat (map (\<lambda>i. abi_word (32 * N + 192 * i)) [0..<N])
         @ concat (map call3_tuple addresses))"

text \<open>The \<open>m\<close> digits of \<open>v\<close>, most significant first.\<close>

definition be_digits :: "nat \<Rightarrow> nat \<Rightarrow> jsstring" where
  "be_digits m v = map (\<lambda>k. hexdigit ((v div 16 ^ (m - 1 - k)) mod 16)) [0..<m]"

text \<open>The six words that \<open>push_element\<close> appends for one address.\<close>

definition element_words :: "jsstring \<Rightarrow> jsstring list" where
  "element_words a =
     [address_word WNS_CONTRACT, abi_word 1, abi_word 0x60, abi_word 0x24,
      js ''9af8b7aa'' @ take 56 (address_word a),
      drop 56 (address_word a) @ replicate 56 48]"

section \<open>Numbers\<close>

text \<open>
  A JavaScript number is a double. The numbers of \<open>decodeAggregate3\<close> are integers
  or \<open>NaN\<close>: \<open>parseInt\<close> yields nothing else, and sums and doubled values of integers
  are integers. \<open>None\<close> is \<open>NaN\<close>; an integer of magnitude \<open>2^53\<close> or more is rounded
  to 53 significant bits, ties to even, every time a double is produced. (No value
  here reaches \<open>2^1024\<close>, so there is no infinity; a negative zero behaves as zero in
  every operation used.)
\<close>

type_synonym number = "int option"

fun bitlen :: "nat \<Rightarrow> nat" where
  "bitlen n = (if n = 0 then 0 else Suc (bitlen (n div 2)))"

declare bitlen.simps [simp del]

definition round53 :: "int \<Rightarrow> int" where
  "round53 x =
     (let a = nat \<bar>x\<bar>
      in if a < 2 ^ 53 then x
         else let e = bitlen a - 53;
                  q = a div 2 ^ e;
                  r = a mod 2 ^ e;
                  q' = (if 2 * r > 2 ^ e \<or> (2 * r = 2 ^ e \<and> odd q) then q + 1 else q)
              in sgn x * int (q' * 2 ^ e))"

definition num_add :: "number \<Rightarrow> number \<Rightarrow> number" where
  "num_add a b =
     (case a of None \<Rightarrow> None
      | Some x \<Rightarrow> (case b of None \<Rightarrow> None | Some y \<Rightarrow> Some (round53 (x + y))))"

definition num_mul :: "number \<Rightarrow> number \<Rightarrow> number" where
  "num_mul a b =
     (case a of None \<Rightarrow> None
      | Some x \<Rightarrow> (case b of None \<Rightarrow> None | Some y \<Rightarrow> Some (round53 (x * y))))"

text \<open>\<open>!x\<close> on a number: true for \<open>NaN\<close> and for zero.\<close>

definition falsy :: "number \<Rightarrow> bool" where
  "falsy x = (x = None \<or> x = Some 0)"

text \<open>An index argument: \<open>NaN\<close> counts as 0.\<close>

definition to_integer :: "number \<Rightarrow> int" where
  "to_integer x = (case x of None \<Rightarrow> 0 | Some v \<Rightarrow> v)"

definition slice_num :: "'a list \<Rightarrow> number \<Rightarrow> number \<Rightarrow> 'a list" where
  "slice_num s a b = slice s (to_integer a) (to_integer b)"

text \<open>The white space and line terminators that \<open>parseInt\<close> skips.\<close>

definition is_js_space :: "nat \<Rightarrow> bool" where
  "is_js_space c =
     (c = 0x9 \<or> c = 0xA \<or> c = 0xB \<or> c = 0xC \<or> c = 0xD \<or> c = 0x20 \<or> c = 0xA0
      \<or> c = 0x1680 \<or> (0x2000 \<le> c \<and> c \<le> 0x200A) \<or> c = 0x2028 \<or> c = 0x2029
      \<or> c = 0x202F \<or> c = 0x205F \<or> c = 0x3000 \<or> c = 0xFEFF)"

definition digit_value :: "nat \<Rightarrow> nat" where
  "digit_value c = (if c \<le> 57 then c - 48 else if c \<le> 70 then c - 55 else c - 87)"

definition hex_value :: "jsstring \<Rightarrow> nat" where
  "hex_value z = foldl (\<lambda>acc c. 16 * acc + digit_value c) 0 z"

text \<open>\<open>parseInt(s, 16)\<close>: leading white space is skipped, then an optional sign, then
  an optional \<open>0x\<close> or \<open>0X\<close>; the longest run of hex digits that follows is the
  value, and \<open>NaN\<close> results when there is none.\<close>

definition parseInt16 :: "jsstring \<Rightarrow> number" where
  "parseInt16 s =
     (let s1 = dropWhile is_js_space s;
          sign = (if take 1 s1 = js ''-'' then - 1 else 1);
          s2 = (if take 1 s1 = js ''-'' \<or> take 1 s1 = js ''+'' then drop 1 s1 else s1);
          s3 = (if take 2 s2 = js ''0x'' \<or> take 2 s2 = js ''0X'' then drop 2 s2 else s2);
          z = takeWhile is_hex s3
      in if z = [] then None else Some (round53 (sign * int (hex_value z))))"

section \<open>Decoding the returned names (background.js)\<close>

text \<open>\<open>hexToBytes\<close>. The array has \<open>hex.length / 2\<close> elements, rounded down; storing
  a number in a \<open>Uint8Array\<close> keeps it modulo 256, and \<open>NaN\<close> as 0.\<close>

definition to_uint8 :: "number \<Rightarrow> nat" where
  "to_uint8 x = (case x of None \<Rightarrow> 0 | Some v \<Rightarrow> nat (v mod 256))"

definition hexToBytes :: "jsstring \<Rightarrow> nat list" where
  "hexToBytes hex =
     map (\<lambda>i. to_uint8 (parseInt16 (slice hex (int (i * 2)) (int (i * 2 + 2)))))
       [0..<length hex div 2]"

text \<open>
  \<open>new TextDecoder('utf-8', { fatal: true }).decode(bytes)\<close>. In fatal mode the decoder
  throws on the first ill-formed sequence, so it returns a string exactly for
  well-formed UTF-8: \<open>utf8_points\<close> reads the code points (\<open>None\<close> is the thrown
  \<open>TypeError\<close>). A leading byte order mark is dropped, and a code point above
  U+FFFF becomes a surrogate pair.
\<close>

definition cont :: "nat \<Rightarrow> bool" where
  "cont b = (0x80 \<le> b \<and> b \<le> 0xBF)"

fun utf8_points :: "nat list \<Rightarrow> nat list option" where
  "utf8_points [] = Some []"
| "utf8_points (b0 # r) =
     (if b0 < 0x80 then map_option ((#) b0) (utf8_points r)
      else if 0xC2 \<le> b0 \<and> b0 \<le> 0xDF then
        (case r of
           b1 # r1 \<Rightarrow>
             if cont b1
             then map_option ((#) ((b0 - 0xC0) * 64 + (b1 - 0x80))) (utf8_points r1)
             else None
         | _ \<Rightarrow> None)
      else if 0xE0 \<le> b0 \<and> b0 \<le> 0xEF then
        (case r of
           b1 # b2 # r2 \<Rightarrow>
             if (if b0 = 0xE0 then 0xA0 else 0x80) \<le> b1
                \<and> b1 \<le> (if b0 = 0xED then 0x9F else 0xBF) \<and> cont b2
             then map_option ((#) ((b0 - 0xE0) * 4096 + (b1 - 0x80) * 64 + (b2 - 0x80)))
                    (utf8_points r2)
             else None
         | _ \<Rightarrow> None)
      else if 0xF0 \<le> b0 \<and> b0 \<le> 0xF4 then
        (case r of
           b1 # b2 # b3 # r3 \<Rightarrow>
             if (if b0 = 0xF0 then 0x90 else 0x80) \<le> b1
                \<and> b1 \<le> (if b0 = 0xF4 then 0x8F else 0xBF) \<and> cont b2 \<and> cont b3
             then map_option
                    ((#) ((b0 - 0xF0) * 262144 + (b1 - 0x80) * 4096 + (b2 - 0x80) * 64
                          + (b3 - 0x80)))
                    (utf8_points r3)
             else None
         | _ \<Rightarrow> None)
      else None)"

definition utf16_units :: "nat \<Rightarrow> jsstring" where
  "utf16_units cp =
     (if cp < 0x10000 then [cp]
      else [0xD800 + (cp - 0x10000) div 1024, 0xDC00 + (cp - 0x10000) mod 1024])"

definition textDecoder_decode :: "nat list \<Rightarrow> jsstring option" where
  "textDecoder_decode bytes =
     (case utf8_points bytes of
        None \<Rightarrow> None
      | Some cps \<Rightarrow>
          Some (concat (map utf16_units (if take 1 cps = [0xFEFF] then drop 1 cps else cps))))"

text \<open>\<open>word\<close> and \<open>uint\<close>, the two local functions of \<open>decodeAggregate3\<close>.\<close>

definition word :: "jsstring \<Rightarrow> number \<Rightarrow> jsstring" where
  "word data pos = slice_num data pos (num_add pos (Some (int W)))"

definition uint :: "jsstring \<Rightarrow> number \<Rightarrow> number" where
  "uint data pos = parseInt16 (word data pos)"

text \<open>What one turn of the loop pushes for slot \<open>i\<close>: a name, or \<open>null\<close> (\<open>None\<close>).
  Every path through the loop body pushes exactly once.\<close>

definition decode_slot :: "jsstring \<Rightarrow> nat \<Rightarrow> jsstring option" where
  "decode_slot data i =
     (let arrayBase = Some (int (2 * W));
          offset = num_mul (uint data (num_add arrayBase (Some (int (i * W))))) (Some 2);
          base = num_add arrayBase offset;
          success = (uint data base = Some 1)
      in if \<not> success then None
         else
           let bytesOffset = num_mul (uint data (num_add base (Some (int W)))) (Some 2);
               bytesBase = num_add base bytesOffset;
               bytesLen = uint data bytesBase
           in if falsy bytesLen then None
              else
                let rdBase = num_add bytesBase (Some (int W));
                    strLen = uint data (num_add rdBase (Some (int W)))
                in if falsy strLen then None
                   else
                     let strHex = slice_num data (num_add rdBase (Some (int (2 * W))))
                                    (num_add (num_add rdBase (Some (int (2 * W))))
                                       (num_mul strLen (Some 2)))
                     in (case textDecoder_decode (hexToBytes strHex) of
                           None \<Rightarrow> None
                         | Some raw \<Rightarrow> sanitizeName raw))"

text \<open>\<open>decodeAggregate3\<close>. The argument is \<open>None\<close> when the payload is missing
  (\<open>undefined\<close> or \<open>null\<close>). The loop runs while \<open>i < n\<close>, that is over \<open>0, ..., n - 1\<close>
  for a positive \<open>n\<close> and not at all for a negative one.\<close>

definition decodeAggregate3 :: "jsstring option \<Rightarrow> error + jsstring option list" where
  "decodeAggregate3 hex_arg =
     (case hex_arg of
        None \<Rightarrow> Inr []
      | Some hex \<Rightarrow>
          if hex = [] \<or> hex = js ''0x'' then Inr []
          else
            let data = (if startsWith hex (js ''0x'') then slice_from hex 2 else hex);
                n = uint data (Some (int W))
            in if falsy n then Inr []
               else for_each (\<lambda>i names. push names (decode_slot data i))
                      [0..<nat (to_integer n)] [])"

subsection \<open>The fields of a result slot, named\<close>

text \<open>The positions and values that \<open>decode_slot\<close> reads for slot \<open>i\<close>, one by one:
  the start of the slot's tuple, its success flag, the start and the length of the
  returned bytes, the declared length of the string and the hex digits of its bytes.\<close>

definition slot_base :: "jsstring \<Rightarrow> nat \<Rightarrow> number" where
  "slot_base data i =
     num_add (Some 128) (num_mul (uint data (num_add (Some 128) (Some (int (i * 64))))) (Some 2))"

definition slot_flag :: "jsstring \<Rightarrow> nat \<Rightarrow> number" where
  "slot_flag data i = uint data (slot_base data i)"

definition slot_bytesBase :: "jsstring \<Rightarrow> nat \<Rightarrow> number" where
  "slot_bytesBase data i =
     num_add (slot_base data i)
       (num_mul (uint data (num_add (slot_base data i) (Some 64))) (Some 2))"

definition slot_bytesLen :: "jsstring \<Rightarrow> nat \<Rightarrow> number" where
  "slot_bytesLen data i = uint data (slot_bytesBase data i)"

definition slot_strLen :: "jsstring \<Rightarrow> nat \<Rightarrow> number" where
  "slot_strLen data i = uint data (num_add (num_add (slot_bytesBase data i) (Some 64)) (Some 64))"

definition slot_strHex :: "jsstring \<Rightarrow> nat \<Rightarrow> jsstring" where
  "slot_strHex data i =
     (let start = num_add (num_add (slot_bytesBase data i) (Some 64)) (Some 128)
      in slice_num data start (num_add start (num_mul (slot_strLen data i) (Some 2))))"

text \<open>A payload that declares \<open>2^32\<close> result slots and holds none.\<close>

definition huge_payload :: jsstring where
  "huge_payload = js (''0x''
     @ ''0000000000000000000000000000000000000000000000000000000000000020''
     @ ''0000000000000000000000000000000000000000000000000000000100000000'')"

text \<open>A well-formed payload with two result slots: the first call failed, the
  second returned the name \<open>abc.wei\<close>. \<open>good_data\<close> is the same without \<open>0x\<close>.\<close>

definition good_payload :: jsstring where
  "good_payload = js (''0x''
     @ ''0000000000000000000000000000000000000000000000000000000000000020''
     @ ''0000000000000000000000000000000000000000000000000000000000000002''
     @ ''0000000000000000000000000000000000000000000000000000000000000040''
     @ ''00000000000000000000000000000000000000000000000000000000000000a0''
     @ ''0000000000000000000000000000000000000000000000000000000000000000''
     @ ''0000000000000000000000000000000000000000000000000000000000000040''
     @ ''0000000000000000000000000000000000000000000000000000000000000000''
     @ ''0000000000000000000000000000000000000000000000000000000000000001''
     @ ''0000000000000000000000000000000000000000000000000000000000000040''
     @ ''0000000000000000000000000000000000000000000000000000000000000060''
     @ ''0000000000000000000000000000000000000000000000000000000000000020''
     @ ''0000000000000000000000000000000000000000000000000000000000000007''
     @ ''6162632e77656900000000000000000000000000000000000000000000000000'')"

definition good_data :: jsstring where
  "good_data = js (''''
     @ ''0000000000000000000000000000000000000000000000000000000000000020''
     @ ''0000000000000000000000000000000000000000000000000000000000000002''
     @ ''0000000000000000000000000000000000000000000000000000000000000040''
     @ ''00000000000000000000000000000000000000000000000000000000000000a0''
     @ ''0000000000000000000000000000000000000000000000000000000000000000''
     @ ''0000000000000000000000000000000000000000000000000000000000000040''
     @ ''0000000000000000000000000000000000000000000000000000000000000000''
     @ ''0000000000000000000000000000000000000000000000000000000000000001''
     @ ''0000000000000000000000000000000000000000000000000000000000000040''
     @ ''0000000000000000000000000000000000000000000000000000000000000060''
     @ ''0000000000000000000000000000000000000000000000000000000000000020''
     @ ''0000000000000000000000000000000000000000000000000000000000000007''
     @ ''6162632e77656900000000000000000000000000000000000000000000000000'')"

section \<open>Address extraction and subject selection (content.js)\<close>

subsection \<open>Regular expressions\<close>

text \<open>
  The patterns \<open>ETH_RE\<close>, \<open>ABBR_RE\<close> and the custom href rules are configuration: each
  may be replaced by a pattern of the user's. A pattern is therefore a parameter,
  given by what \<open>exec\<close> returns.
  \<^item> \<open>ABBR_RE\<close> has no \<open>g\<close> flag: \<open>exec\<close> depends on the input only. The README
    requires that the pattern <<contain two capture groups: prefix hex digits and
    suffix hex digits>>; the match is given by these two captures, \<open>m[1]\<close> and \<open>m[2]\<close>.
  \<^item> \<open>ETH_RE\<close> has the \<open>g\<close> flag: \<open>exec\<close> searches from \<open>lastIndex\<close> and, on a match,
    returns \<open>m[0]\<close> and the new \<open>lastIndex\<close>.
  \<^item> A rule's pattern has no flag; its match is the array \<open>m\<close>, whose entry is
    \<open>None\<close> for a group that took no part in the match.
\<close>

type_synonym abbr_regexp = "jsstring \<Rightarrow> (jsstring \<times> jsstring) option"

type_synonym global_regexp = "jsstring \<Rightarrow> nat \<Rightarrow> (jsstring \<times> nat) option"

type_synonym regexp = "jsstring \<Rightarrow> jsstring option list option"

text \<open>\<^verbatim>\<open>\w\<close> and the word boundary \<^verbatim>\<open>\b\<close> at position \<open>p\<close> of \<open>s\<close>.\<close>

definition is_word :: "nat \<Rightarrow> bool" where
  "is_word c = ((48 \<le> c \<and> c \<le> 57) \<or> (65 \<le> c \<and> c \<le> 90) \<or> c = 95 \<or> (97 \<le> c \<and> c \<le> 122))"

definition word_at :: "jsstring \<Rightarrow> int \<Rightarrow> bool" where
  "word_at s p = (0 \<le> p \<and> p < int (length s) \<and> is_word (s ! nat p))"

definition boundary :: "jsstring \<Rightarrow> nat \<Rightarrow> bool" where
  "boundary s p = (word_at s (int p - 1) \<noteq> word_at s (int p))"

text \<open>\<open>VALID_ETH_RE\<close>, \<^verbatim>\<open>/^0x[0-9a-fA-F]{40}$/\<close>.\<close>

definition VALID_ETH_RE :: "jsstring \<Rightarrow> bool" where
  "VALID_ETH_RE s = (length s = 42 \<and> take 2 s = js ''0x'' \<and> list_all is_hex (drop 2 s))"

text \<open>\<open>DEFAULT_ETH_RE\<close>, \<^verbatim>\<open>/\b0x[0-9a-fA-F]{40}\b/g\<close>: the leftmost position from
  \<open>lastIndex\<close> on where the 42 code units match between two word boundaries.\<close>

definition eth_at :: "jsstring \<Rightarrow> nat \<Rightarrow> bool" where
  "eth_at s p =
     (boundary s p \<and> VALID_ETH_RE (take 42 (drop p s)) \<and> boundary s (p + 42))"

definition DEFAULT_ETH_RE :: global_regexp where
  "DEFAULT_ETH_RE s lastIndex =
     (case find (eth_at s) [lastIndex..<length s] of
        None \<Rightarrow> None
      | Some p \<Rightarrow> Some (take 42 (drop p s), p + 42))"

text \<open>\<open>DEFAULT_ABBR_RE\<close>,
  \<^verbatim>\<open>/\b0x([0-9a-fA-F]{4,})[\u2026\.]{2,3}([0-9a-fA-F]{4,})\b/\<close>. At a position the
  match is forced: a quantified run cannot stop early, because the next item of the
  pattern does not accept a code unit of the run; so each group is the whole run of
  hex digits, the separators are a whole run of two or three, and the code unit
  after the second group is not a word character.\<close>

definition is_sep :: "nat \<Rightarrow> bool" where
  "is_sep c = (c = 0x2026 \<or> c = 0x2E)"

definition abbr_at :: "jsstring \<Rightarrow> nat \<Rightarrow> (jsstring \<times> jsstring) option" where
  "abbr_at s p =
     (let r = drop (p + 2) s;
          g1 = takeWhile is_hex r;
          r1 = dropWhile is_hex r;
          sep = takeWhile is_sep r1;
          r2 = dropWhile is_sep r1;
          g2 = takeWhile is_hex r2;
          r3 = dropWhile is_hex r2
      in if boundary s p \<and> take 2 (drop p s) = js ''0x'' \<and> 4 \<le> length g1
            \<and> (length sep = 2 \<or> length sep = 3) \<and> 4 \<le> length g2
            \<and> (case r3 of [] \<Rightarrow> True | c # _ \<Rightarrow> \<not> is_word c)
         then Some (g1, g2) else None)"

definition DEFAULT_ABBR_RE :: abbr_regexp where
  "DEFAULT_ABBR_RE s =
     (case find (\<lambda>p. abbr_at s p \<noteq> None) [0..<length s] of
        None \<Rightarrow> None
      | Some p \<Rightarrow> abbr_at s p)"

subsection \<open>Custom href rules\<close>

record rule =
  re :: regexp
  group :: int

text \<open>\<open>m?.[rule.group]\<close>: \<open>undefined\<close> (\<open>None\<close>) when there is no match, when the index
  is not an index of \<open>m\<close>, and when the group took no part.\<close>

definition captured_by :: "rule \<Rightarrow> jsstring \<Rightarrow> jsstring option" where
  "captured_by r href =
     (case re r href of
        None \<Rightarrow> None
      | Some m \<Rightarrow> if 0 \<le> group r \<and> nat (group r) < length m then m ! nat (group r) else None)"

text \<open>A string is truthy when it is not empty.\<close>

definition truthy :: "jsstring option \<Rightarrow> bool" where
  "truthy v = (case v of None \<Rightarrow> False | Some s \<Rightarrow> s \<noteq> [])"

fun matchHrefRules :: "rule list \<Rightarrow> jsstring \<Rightarrow> jsstring option" where
  "matchHrefRules [] href = None"
| "matchHrefRules (r # rules) href =
     (case captured_by r href of
        Some captured \<Rightarrow>
          if captured \<noteq> [] \<and> VALID_ETH_RE captured then Some (toLowerCase captured)
          else matchHrefRules rules href
      | None \<Rightarrow> matchHrefRules rules href)"

subsection \<open>Addresses in an href\<close>

text \<open>The \<open>while\<close> loop of \<open>allAddressesInHref\<close> runs as long as \<open>exec\<close> finds a match;
  with a pattern that matches without moving \<open>lastIndex\<close> forward it does not end,
  and the result is \<open>None\<close>.\<close>

partial_function (option) exec_loop ::
  "global_regexp \<Rightarrow> jsstring \<Rightarrow> nat \<Rightarrow> jsstring list \<Rightarrow> jsstring list option" where
  "exec_loop ETH_RE href lastIndex found =
     (case ETH_RE href lastIndex of
        None \<Rightarrow> Some found
      | Some (m0, lastIndex') \<Rightarrow> exec_loop ETH_RE href lastIndex' (found @ [toLowerCase m0]))"

definition allAddressesInHref :: "global_regexp \<Rightarrow> jsstring \<Rightarrow> jsstring list option" where
  "allAddressesInHref ETH_RE href = (if href = [] then Some [] else exec_loop ETH_RE href 0 [])"

definition matchAbbrToAddresses ::
  "abbr_regexp \<Rightarrow> jsstring \<Rightarrow> jsstring list \<Rightarrow> jsstring option" where
  "matchAbbrToAddresses ABBR_RE displayText addresses =
     (case ABBR_RE displayText of
        None \<Rightarrow> None
      | Some (m1, m2) \<Rightarrow>
          let prefix = toLowerCase m1; suffix = toLowerCase m2
          in find (\<lambda>addr. let hex = slice_from addr 2
                          in startsWith hex prefix \<and> endsWith hex suffix) addresses)"

definition matchAbbrToHref ::
  "global_regexp \<Rightarrow> abbr_regexp \<Rightarrow> jsstring \<Rightarrow> jsstring \<Rightarrow> jsstring option option" where
  "matchAbbrToHref ETH_RE ABBR_RE displayText href =
     map_option (matchAbbrToAddresses ABBR_RE displayText) (allAddressesInHref ETH_RE href)"

subsection \<open>Subject selection\<close>

text \<open>What \<open>pickSubjectAddress\<close> reads of \<open>new URL(href)\<close>: the path, the query
  parameters in order, and the fragment. The parser is the platform's; it is a
  parameter, \<open>None\<close> where the constructor throws.\<close>

record url =
  pathname :: jsstring
  searchParams :: "(jsstring \<times> jsstring) list"
  hash :: jsstring

type_synonym url_parser = "jsstring \<Rightarrow> url option"

text \<open>The score of one address, as the body of the scoring loop computes it.\<close>

definition path_signal :: "url \<Rightarrow> jsstring \<Rightarrow> int \<Rightarrow> int" where
  "path_signal u addr score =
     (let pathLower = toLowerCase (pathname u)
      in case indexOf pathLower addr of
           None \<Rightarrow> score
         | Some addrIdx \<Rightarrow>
             let before = take addrIdx pathLower;
                 score1 = (if endsWith before (js ''/address/'') \<or> endsWith before (js ''/holder/'')
                           then score + 10 else score)
             in if endsWith before (js ''/token/'') \<or> endsWith before (js ''/contract/'')
                then score1 - 5 else score1)"

definition query_signal :: "url \<Rightarrow> jsstring \<Rightarrow> int \<Rightarrow> int" where
  "query_signal u addr score =
     fold (\<lambda>(key, val) score.
             if toLowerCase val \<noteq> addr then score
             else
               let score1 = (if toLowerCase key \<in> set [js ''a'', js ''holder'', js ''address'']
                             then score + 10 else score)
               in if toLowerCase key \<in> set [js ''token'', js ''contract'']
                  then score1 - 5 else score1)
          (searchParams u) score"

definition hash_signal :: "url \<Rightarrow> jsstring \<Rightarrow> int \<Rightarrow> int" where
  "hash_signal u addr score =
     (let hashStr = toLowerCase (hash u)
      in if includes_str hashStr addr
         then
           let score1 = (if includes_str hashStr (js ''holder='' @ addr) then score + 10 else score)
           in if includes_str hashStr (js ''address='' @ addr) then score1 + 10 else score1
         else score)"

definition address_score :: "url \<Rightarrow> jsstring \<Rightarrow> int" where
  "address_score u addr = hash_signal u addr (query_signal u addr (path_signal u addr 0))"

text \<open>The map \<open>scores\<close>: every address is first set to 0, then to its score.\<close>

definition score_map :: "url \<Rightarrow> jsstring list \<Rightarrow> (jsstring \<rightharpoonup> int)" where
  "score_map u addresses =
     fold (\<lambda>addr scores. scores(addr \<mapsto> address_score u addr)) addresses
       (fold (\<lambda>addr scores. scores(addr \<mapsto> 0)) addresses Map.empty)"

text \<open>The loop that picks the highest-scoring address: a later address replaces
  \<open>best\<close> only when its score is strictly greater. (\<open>s > bestScore\<close> is false when
  \<open>scores.get\<close> has no entry.)\<close>

definition pick_best ::
  "(jsstring \<rightharpoonup> int) \<Rightarrow> jsstring list \<Rightarrow> jsstring \<times> int \<Rightarrow> jsstring \<times> int" where
  "pick_best scores addresses start =
     fold (\<lambda>addr (best, bestScore).
             case scores addr of
               Some s \<Rightarrow> if s > bestScore then (addr, s) else (best, bestScore)
             | None \<Rightarrow> (best, bestScore))
          addresses start"

text \<open>Tier 3: the last address; \<open>undefined\<close> (\<open>None\<close>) for an empty array.\<close>

definition tier3 :: "jsstring list \<Rightarrow> jsstring option" where
  "tier3 addresses = (if addresses = [] then None else Some (last addresses))"

text \<open>Tier 2. With an empty array \<open>best\<close> and \<open>bestScore\<close> are \<open>undefined\<close>, the
  test \<open>bestScore !== 0\<close> succeeds and \<open>undefined\<close> is returned.\<close>

definition tier2 :: "url_parser \<Rightarrow> jsstring \<Rightarrow> jsstring list \<Rightarrow> jsstring option" where
  "tier2 parseURL href addresses =
     (case parseURL href of
        None \<Rightarrow> tier3 addresses
      | Some u \<Rightarrow>
          (case addresses of
             [] \<Rightarrow> None
           | first # _ \<Rightarrow>
               (case score_map u addresses first of
                  None \<Rightarrow> Some first
                | Some firstScore \<Rightarrow>
                    let (best, bestScore) =
                          pick_best (score_map u addresses) addresses (first, firstScore)
                    in if bestScore \<noteq> 0 then Some best else tier3 addresses)))"

definition pickSubjectAddress ::
  "url_parser \<Rightarrow> abbr_regexp \<Rightarrow> jsstring \<Rightarrow> jsstring list \<Rightarrow> jsstring \<Rightarrow> jsstring option"
  where
  "pickSubjectAddress parseURL ABBR_RE href addresses displayText =
     (if length addresses = 1 then Some (addresses ! 0)
      else
        let abbrHit = matchAbbrToAddresses ABBR_RE displayText addresses
        in if truthy abbrHit then abbrHit
           else
             let displayLower = toLowerCase displayText
             in (case (if VALID_ETH_RE displayText
                       then find (\<lambda>addr. addr = displayLower) addresses else None) of
                   Some addr \<Rightarrow> Some addr
                 | None \<Rightarrow> tier2 parseURL href addresses))"

text \<open>The first element of a list, in list order, among those on which \<open>f\<close> is
  greatest.\<close>

definition first_with_max :: "('a \<Rightarrow> int) \<Rightarrow> 'a list \<Rightarrow> 'a" where
  "first_with_max f xs = hd (filter (\<lambda>a. f a = Max (f ` set xs)) xs)"

text \<open>An address in canonical form: \<open>0x\<close> and 40 hex digits, none of them upper
  case, as \<open>allAddressesInHref\<close> and \<open>matchHrefRules\<close> produce it.\<close>

definition canonical_address :: "jsstring \<Rightarrow> bool" where
  "canonical_address a = (VALID_ETH_RE a \<and> toLowerCase a = a)"

text \<open>The display label's abbreviation, prefix \<open>p\<close> and suffix \<open>s\<close>, corresponds to
  the candidate \<open>c\<close>: the hex body of \<open>c\<close> starts with \<open>p\<close> and ends with \<open>s\<close>, letter
  case aside.\<close>

definition abbr_corresponds :: "jsstring \<Rightarrow> jsstring \<Rightarrow> jsstring \<Rightarrow> bool" where
  "abbr_corresponds p s c =
     (startsWith (toLowerCase (drop 2 c)) (toLowerCase p)
      \<and> endsWith (toLowerCase (drop 2 c)) (toLowerCase s))"

subsection \<open>Example inputs\<close>

text \<open>Two candidate addresses and two hrefs that hold both. For these hrefs
  \<open>example_parser\<close> gives the components that \<open>new URL(href)\<close> has: in the first the
  address A follows the path segment \<open>address\<close> and B is the value of the query
  parameter \<open>token\<close>; in the second A is the value of \<open>a\<close> and B the value of
  \<open>address\<close>.\<close>

definition addr_A :: jsstring where
  "addr_A = js ''0xaaaaaaaaaaaaaaaaaaaaaaaaaaaaaaaaaaaa0001''"

definition addr_B :: jsstring where
  "addr_B = js ''0xbbbbbbbbbbbbbbbbbbbbbbbbbbbbbbbbbbbb0002''"

definition href_path_token :: jsstring where
  "href_path_token = js ''https://x/address/0xaaaaaaaaaaaaaaaaaaaaaaaaaaaaaaaaaaaa0001?token=0xbbbbbbbbbbbbbbbbbbbbbbbbbbbbbbbbbbbb0002''"

definition url_path_token :: url where
  "url_path_token =
     \<lparr>pathname = js ''/address/0xaaaaaaaaaaaaaaaaaaaaaaaaaaaaaaaaaaaa0001'', searchParams = [(js ''token'', addr_B)], hash = []\<rparr>"

definition href_two_params :: jsstring where
  "href_two_params = js ''https://x/?a=0xaaaaaaaaaaaaaaaaaaaaaaaaaaaaaaaaaaaa0001&address=0xbbbbbbbbbbbbbbbbbbbbbbbbbbbbbbbbbbbb0002''"

definition url_two_params :: url where
  "url_two_params =
     \<lparr>pathname = js ''/'', searchParams = [(js ''a'', addr_A), (js ''address'', addr_B)], hash = []\<rparr>"

definition example_parser :: url_parser where
  "example_parser href =
     (if href = href_path_token then Some url_path_token
      else if href = href_two_params then Some url_two_params
      else None)"

subsection \<open>Link collection\<close>

text \<open>An anchor, as far as \<open>collectEthereumLinks\<close> reads it: its resolved \<open>href\<close>
  (the empty string when it has none) and its text content.\<close>

record anchor =
  anchor_href :: jsstring
  anchor_textContent :: jsstring

definition trim :: "jsstring \<Rightarrow> jsstring" where
  "trim s = rev (dropWhile is_js_space (rev (dropWhile is_js_space s)))"

text \<open>\<open>Set.prototype.add\<close>, the set kept in insertion order.\<close>

definition set_add :: "'a \<Rightarrow> 'a list \<Rightarrow> 'a list" where
  "set_add x xs = (if x \<in> set xs then xs else xs @ [x])"

text \<open>
  One turn of the loop over the candidate anchors, on the pair of \<open>results\<close> and
  \<open>addressSet\<close>. A \<open>fullAddress\<close> is a string or \<open>undefined\<close> (\<open>None\<close>); the turn as a
  whole is \<open>None\<close> when \<open>allAddressesInHref\<close> does not return. The module variables
  \<open>ETH_RE\<close>, \<open>ABBR_RE\<close> and \<open>HREF_RULES\<close> are parameters.
\<close>

definition collect_anchor ::
  "global_regexp \<Rightarrow> abbr_regexp \<Rightarrow> rule list \<Rightarrow> url_parser \<Rightarrow> anchor
   \<Rightarrow> (anchor \<times> jsstring option) list \<times> jsstring option list
   \<Rightarrow> ((anchor \<times> jsstring option) list \<times> jsstring option list) option" where
  "collect_anchor ETH_RE ABBR_RE HREF_RULES parseURL anchor st =
     (let (results, addressSet) = st;
          href = anchor_href anchor;
          ruleMatch = (if HREF_RULES \<noteq> [] then matchHrefRules HREF_RULES href else None)
      in if truthy ruleMatch
         then Some (results @ [(anchor, ruleMatch)], set_add ruleMatch addressSet)
         else
           (case allAddressesInHref ETH_RE href of
              None \<Rightarrow> None
            | Some hrefAddresses \<Rightarrow>
                if hrefAddresses \<noteq> []
                then
                  let displayText = trim (anchor_textContent anchor);
                      fullAddress = pickSubjectAddress parseURL ABBR_RE href hrefAddresses displayText
                  in Some (results @ [(anchor, fullAddress)], set_add fullAddress addressSet)
                else
                  let displayText = trim (anchor_textContent anchor)
                  in (case matchAbbrToHref ETH_RE ABBR_RE displayText href of
                        None \<Rightarrow> None
                      | Some matched \<Rightarrow>
                          if truthy matched
                          then Some (results @ [(anchor, matched)], set_add matched addressSet)
                          else Some (results, addressSet))))"

fun collect_loop ::
  "global_regexp \<Rightarrow> abbr_regexp \<Rightarrow> rule list \<Rightarrow> url_parser \<Rightarrow> anchor list
   \<Rightarrow> (anchor \<times> jsstring option) list \<times> jsstring option list
   \<Rightarrow> ((anchor \<times> jsstring option) list \<times> jsstring option list) option" where
  "collect_loop ETH_RE ABBR_RE HREF_RULES parseURL [] st = Some st"
| "collect_loop ETH_RE ABBR_RE HREF_RULES parseURL (anchor # candidates) st =
     (case collect_anchor ETH_RE ABBR_RE HREF_RULES parseURL anchor st of
        None \<Rightarrow> None
      | Some st' \<Rightarrow> collect_loop ETH_RE ABBR_RE HREF_RULES parseURL candidates st')"

text \<open>\<open>collectEthereumLinks\<close>, given the candidate anchors that the DOM query found.\<close>

definition collectEthereumLinks ::
  "global_regexp \<Rightarrow> abbr_regexp \<Rightarrow> rule list \<Rightarrow> url_parser \<Rightarrow> anchor list
   \<Rightarrow> jsstring option list
   \<Rightarrow> ((anchor \<times> jsstring option) list \<times> jsstring option list) option" where
  "collectEthereumLinks ETH_RE ABBR_RE HREF_RULES parseURL candidates addressSet =
     collect_loop ETH_RE ABBR_RE HREF_RULES parseURL candidates ([], addressSet)"

text \<open>A rule yields an address for an href when its designated capture is a
  syntactically valid full address.\<close>

definition rule_yields :: "jsstring \<Rightarrow> rule \<Rightarrow> bool" where
  "rule_yields href r =
     (case captured_by r href of None \<Rightarrow> False | Some c \<Rightarrow> VALID_ETH_RE c)"

text \<open>Example: a rule for the query parameter \<open>a\<close> that finds nothing in the href
  at hand, and an anchor whose href holds the address A in its path.\<close>

definition rule_no_match :: rule where
  "rule_no_match = \<lparr>re = (\<lambda>href. None), group = 1\<rparr>"

definition href_path_only :: jsstring where
  "href_path_only = js ''https://x/address/'' @ addr_A"

definition anchor_path_only :: anchor where
  "anchor_path_only = \<lparr>anchor_href = href_path_only, anchor_textContent = js '' View ''\<rparr>"

text \<open>A second rule, for the pattern \<^verbatim>\<open>^https://x/\?a=(0x[0-9a-fA-F]{40})\<close>: anchored
  at the start, it matches exactly when the href begins with \<open>https://x/?a=\<close> and an
  address follows; \<open>m[0]\<close> is the matched text and \<open>m[1]\<close> the address.\<close>

definition re_query_a :: regexp where
  "re_query_a href =
     (if take 13 href = js ''https://x/?a='' \<and> VALID_ETH_RE (take 42 (drop 13 href))
      then Some [Some (take 55 href), Some (take 42 (drop 13 href))]
      else None)"

definition rule_query_a :: rule where
  "rule_query_a = \<lparr>re = re_query_a, group = 1\<rparr>"

definition anchor_two_params :: anchor where
  "anchor_two_params = \<lparr>anchor_href = href_two_params, anchor_textContent = js ''View''\<rparr>"

section \<open>The cache and the batch orchestrator (background.js)\<close>

text \<open>
  What \<open>getConfig()\<close> resolves to, as far as the resolver reads it. The endpoint and
  the request headers are handed to \<open>fetch\<close> unchanged; they belong to the network's
  behaviour below.
\<close>

record config =
  cacheEnabled :: bool
  cacheTtlMinutes :: int
  maxBatchSize :: int
  rpcCooldownMs :: int

text \<open>A cache entry \<open>{ n: name, t: now }\<close>; \<open>n\<close> is \<open>null\<close> (\<open>None\<close>) for an address without
  a name.\<close>

record entry =
  entry_n :: "jsstring option"
  entry_t :: int

text \<open>
  The state that the resolver reads and writes: the configuration, the content of
  \<open>chrome.storage.local\<close> under the cache keys, the clock \<open>Date.now()\<close>, the module
  variable \<open>lastRpcTime\<close>, and a log of the transport calls made so far, each with the
  time it was issued, the chunk of addresses it was for and its call data.
  Time passes in the two places where the code waits for it: the timer of
  \<open>waitForCooldown\<close> and the transport call.
\<close>

record world =
  config :: config
  local :: "jsstring \<rightharpoonup> entry"
  clock :: int
  lastRpcTime :: int
  calls :: "(int \<times> jsstring list \<times> jsstring) list"

definition call_time :: "int \<times> jsstring list \<times> jsstring \<Rightarrow> int" where
  "call_time c = fst c"

definition call_chunk :: "int \<times> jsstring list \<times> jsstring \<Rightarrow> jsstring list" where
  "call_chunk c = fst (snd c)"

definition call_data :: "int \<times> jsstring list \<times> jsstring \<Rightarrow> jsstring" where
  "call_data c = snd (snd c)"

text \<open>
  The network is a parameter: what the endpoint answers to the \<open>k\<close>-th transport call
  with the given call data, and how long the call takes.
  \<^item> \<open>Rejects\<close>: \<open>fetch\<close> rejects, or \<open>res.json()\<close> does (the body is not JSON);
  \<^item> \<open>No_result\<close>: the body is JSON and \<open>json.result\<close> is falsy (absent, \<open>null\<close>, empty),
    as in a JSON-RPC error response;
  \<^item> \<open>Result s\<close>: \<open>json.result\<close> is the string \<open>s\<close>, not empty;
  \<^item> \<open>Result_not_string\<close>: \<open>json.result\<close> is truthy and not a string, on which
    \<open>hex.startsWith\<close> is not a function; or the body is the JSON value \<open>null\<close>, on
    which \<open>json.result\<close> cannot be read. Both end in a \<open>TypeError\<close>.
\<close>

datatype reply = Rejects | No_result | Result jsstring | Result_not_string

type_synonym network = "nat \<Rightarrow> jsstring \<Rightarrow> reply \<times> int"

text \<open>The loop of \<open>resolveViaRPC\<close> over the addresses: \<open>names[i]\<close> is \<open>undefined\<close> beyond
  the end of \<open>names\<close>, and only a truthy name is set.\<close>

definition set_names ::
  "jsstring list \<Rightarrow> jsstring option list \<Rightarrow> (jsstring \<rightharpoonup> jsstring)" where
  "set_names addresses names =
     fold (\<lambda>i results.
             if i < length names \<and> truthy (names ! i)
             then results(toLowerCase (addresses ! i) := names ! i)
             else results)
          [0..<length addresses] Map.empty"

definition resolveViaRPC ::
  "network \<Rightarrow> world \<Rightarrow> jsstring list \<Rightarrow> (error + (jsstring \<rightharpoonup> jsstring)) \<times> world" where
  "resolveViaRPC net w addresses =
     (case encodeMulticall addresses of
        Inl e \<Rightarrow> (Inl e, w)
      | Inr calldata \<Rightarrow>
          let (res, duration) = net (length (calls w)) calldata;
              w1 = w\<lparr>calls := calls w @ [(clock w, addresses, calldata)],
                     clock := clock w + duration\<rparr>
          in (case res of
                Rejects \<Rightarrow> (Inl NetworkError, w1)
              | No_result \<Rightarrow> (Inr Map.empty, w1)
              | Result_not_string \<Rightarrow> (Inl TypeError, w1)
              | Result hex \<Rightarrow>
                  (case decodeAggregate3 (Some hex) of
                     Inl e \<Rightarrow> (Inl e, w1)
                   | Inr names \<Rightarrow> (Inr (set_names addresses names), w1))))"

definition cacheKey :: "jsstring \<Rightarrow> jsstring" where
  "cacheKey address = js ''wns_'' @ toLowerCase address"

text \<open>The cache read: one turn of the loop over the addresses, on the pair of
  \<open>results\<close> and \<open>uncached\<close>, and the loop. \<open>cached\<close> is what the store returned and
  \<open>now\<close> the time of the read.\<close>

definition cache_read_step ::
  "(jsstring \<rightharpoonup> entry) \<Rightarrow> int \<Rightarrow> int \<Rightarrow> jsstring
   \<Rightarrow> (jsstring \<rightharpoonup> jsstring) \<times> jsstring list
   \<Rightarrow> (jsstring \<rightharpoonup> jsstring) \<times> jsstring list" where
  "cache_read_step cached now cacheTtlMs addr st =
     (let (results, uncached) = st
      in case cached (cacheKey addr) of
           Some e \<Rightarrow>
             if now - entry_t e < cacheTtlMs
             then (if truthy (entry_n e)
                   then (results(toLowerCase addr := entry_n e), uncached)
                   else (results, uncached))
             else (results, uncached @ [addr])
         | None \<Rightarrow> (results, uncached @ [addr]))"

definition cache_read ::
  "(jsstring \<rightharpoonup> entry) \<Rightarrow> int \<Rightarrow> int \<Rightarrow> jsstring list
   \<Rightarrow> (jsstring \<rightharpoonup> jsstring) \<times> jsstring list" where
  "cache_read cached now cacheTtlMs addresses =
     fold (cache_read_step cached now cacheTtlMs) addresses (Map.empty, [])"

text \<open>The chunking loop. Each turn pushes one chunk; it ends when \<open>i\<close> has passed the
  end of \<open>uncached\<close>, or with the \<open>RangeError\<close> of a push on a full array when
  \<open>maxBatch\<close> does not move \<open>i\<close> forward.\<close>

function chunk_loop ::
  "int \<Rightarrow> jsstring list \<Rightarrow> int \<Rightarrow> jsstring list list \<Rightarrow> error + jsstring list list" where
  "chunk_loop maxBatch uncached i chunks =
     (if i < int (length uncached)
      then (case push chunks (slice uncached i (i + maxBatch)) of
              Inl e \<Rightarrow> Inl e
            | Inr chunks' \<Rightarrow> chunk_loop maxBatch uncached (i + maxBatch) chunks')
      else Inr chunks)"
  by pat_completeness auto
termination
  by (relation "measure (\<lambda>(maxBatch, uncached, i, chunks). MAX_ARRAY_LENGTH - length chunks)")
     (auto simp: push_def split: if_splits)

declare chunk_loop.simps [simp del]

text \<open>What is written to the store after a chunk: for each address of the chunk the
  name that \<open>fresh\<close> holds, or \<open>null\<close>, with the time of the write.\<close>

definition store_chunk ::
  "jsstring list \<Rightarrow> (jsstring \<rightharpoonup> jsstring) \<Rightarrow> int \<Rightarrow> (jsstring \<rightharpoonup> entry)" where
  "store_chunk chunk fresh now =
     fold (\<lambda>addr toStore.
             let name = (if truthy (fresh (toLowerCase addr)) then fresh (toLowerCase addr)
                         else None)
             in toStore(cacheKey addr \<mapsto> \<lparr>entry_n = name, entry_t = now\<rparr>))
          chunk Map.empty"

text \<open>The loop over the chunks, on \<open>results\<close> and the state. An exception of
  \<open>resolveViaRPC\<close> leaves the loop and the function.\<close>

fun resolve_chunks ::
  "network \<Rightarrow> bool \<Rightarrow> jsstring list list \<Rightarrow> (jsstring \<rightharpoonup> jsstring) \<times> world
   \<Rightarrow> (error + (jsstring \<rightharpoonup> jsstring)) \<times> world" where
  "resolve_chunks net enabled [] (results, w) = (Inr results, w)"
| "resolve_chunks net enabled (chunk # chunks) (results, w) =
     (case resolveViaRPC net w chunk of
        (Inl e, w1) \<Rightarrow> (Inl e, w1)
      | (Inr fresh, w1) \<Rightarrow>
          let w2 = (if enabled
                    then w1\<lparr>local := local w1 ++ store_chunk chunk fresh (clock w1)\<rparr>
                    else w1)
          in resolve_chunks net enabled chunks (results ++ fresh, w2))"

definition resolveAddresses ::
  "network \<Rightarrow> world \<Rightarrow> jsstring list \<Rightarrow> (error + (jsstring \<rightharpoonup> jsstring)) \<times> world" where
  "resolveAddresses net w addresses =
     (let stored = config w;
          enabled = cacheEnabled stored;
          cacheTtlMs = cacheTtlMinutes stored * 60 * 1000;
          (results, uncached) =
             (if enabled then cache_read (local w) (clock w) cacheTtlMs addresses
              else (Map.empty, addresses))
      in if uncached \<noteq> []
         then (case chunk_loop (maxBatchSize stored) uncached 0 [] of
                 Inl e \<Rightarrow> (Inl e, w)
               | Inr chunks \<Rightarrow> resolve_chunks net enabled chunks (results, w))
         else (Inr results, w))"

definition waitForCooldown :: "world \<Rightarrow> world" where
  "waitForCooldown w =
     (let cooldown = rpcCooldownMs (config w);
          elapsed = clock w - lastRpcTime w
      in if elapsed < cooldown then w\<lparr>clock := clock w + (cooldown - elapsed)\<rparr> else w)"

definition resolveWithCooldown ::
  "network \<Rightarrow> world \<Rightarrow> jsstring list \<Rightarrow> (error + (jsstring \<rightharpoonup> jsstring)) \<times> world" where
  "resolveWithCooldown net w addresses =
     (let w1 = waitForCooldown w;
          w2 = w1\<lparr>lastRpcTime := clock w1\<rparr>
      in resolveAddresses net w2 addresses)"

text \<open>The message listener on a \<open>RESOLVE\<close> message: the names it sends back. An
  exception of the resolver is caught here and answered with no names.\<close>

definition on_RESOLVE ::
  "network \<Rightarrow> world \<Rightarrow> jsstring list \<Rightarrow> (jsstring \<rightharpoonup> jsstring) \<times> world" where
  "on_RESOLVE net w message_addresses =
     (let addresses = filter VALID_ADDR message_addresses
      in if addresses = [] then (Map.empty, w)
         else (case resolveWithCooldown net w addresses of
                 (Inl err, w') \<Rightarrow> (Map.empty, w')
               | (Inr nameMap, w') \<Rightarrow> (nameMap, w')))"

subsection \<open>Chunks and cache hits, in the specification's words\<close>

text \<open>The partition of a list, in order, into chunks of \<open>m\<close> elements, the last one
  possibly shorter.\<close>

function chunks_of :: "nat \<Rightarrow> 'a list \<Rightarrow> 'a list list" where
  "chunks_of m xs = (if m = 0 \<or> xs = [] then [] else take m xs # chunks_of m (drop m xs))"
  by pat_completeness auto
termination
  by (relation "measure (\<lambda>(m, xs). length xs)") auto

declare chunks_of.simps [simp del]

text \<open>An address has a fresh cache entry at time \<open>now\<close>: the entry exists and \<open>now\<close> minus
  its timestamp is less than the TTL.\<close>

definition fresh_entry :: "(jsstring \<rightharpoonup> entry) \<Rightarrow> int \<Rightarrow> int \<Rightarrow> jsstring \<Rightarrow> bool" where
  "fresh_entry cached now cacheTtlMs addr =
     (case cached (cacheKey addr) of None \<Rightarrow> False | Some e \<Rightarrow> now - entry_t e < cacheTtlMs)"

text \<open>An address has a fresh cache entry with a name at time \<open>now\<close>.\<close>

definition hit_with_name :: "(jsstring \<rightharpoonup> entry) \<Rightarrow> int \<Rightarrow> int \<Rightarrow> jsstring \<Rightarrow> bool" where
  "hit_with_name cached now cacheTtlMs addr =
     (case cached (cacheKey addr) of
        None \<Rightarrow> False
      | Some e \<Rightarrow> now - entry_t e < cacheTtlMs \<and> truthy (entry_n e))"

text \<open>The uncached addresses of a resolve call whose cache read happens at \<open>now\<close>.\<close>

definition uncached_at :: "world \<Rightarrow> int \<Rightarrow> jsstring list \<Rightarrow> jsstring list" where
  "uncached_at w now addresses =
     (if cacheEnabled (config w)
      then filter (\<lambda>addr. \<not> fresh_entry (local w) now (cacheTtlMinutes (config w) * 60 * 1000) addr)
             addresses
      else addresses)"

text \<open>The transport calls made between two states.\<close>

definition new_calls :: "world \<Rightarrow> world \<Rightarrow> (int \<times> jsstring list \<times> jsstring) list" where
  "new_calls w w' = drop (length (calls w)) (calls w')"

text \<open>Transport calls issued back to back: the first at time \<open>t\<close>, each later one at the
  moment at which the call before it has returned, with nothing waited for in between.
  \<open>k\<close> is the number of calls the network has answered before the first of them.\<close>

fun back_to_back ::
  "network \<Rightarrow> nat \<Rightarrow> int \<Rightarrow> (int \<times> jsstring list \<times> jsstring) list \<Rightarrow> bool" where
  "back_to_back net k t [] = True"
| "back_to_back net k t (c # cs) =
     (call_time c = t \<and> back_to_back net (Suc k) (t + snd (net k (call_data c))) cs)"

text \<open>The state in which \<open>resolveWithCooldown\<close> calls \<open>resolveAddresses\<close>: the cooldown
  has been waited for and \<open>lastRpcTime\<close> set.\<close>

definition cooled :: "world \<Rightarrow> world" where
  "cooled w = (waitForCooldown w)\<lparr>lastRpcTime := clock (waitForCooldown w)\<rparr>"

subsection \<open>Example configurations and networks\<close>

text \<open>A state with an empty cache at time 5000, when no transport call has been made,
  and a network whose every answer is a JSON-RPC error after 100 ms.\<close>

definition config_of :: "bool \<Rightarrow> int \<Rightarrow> config" where
  "config_of enabled batch =
     \<lparr>cacheEnabled = enabled, cacheTtlMinutes = 60, maxBatchSize = batch, rpcCooldownMs = 2000\<rparr>"

definition world_of :: "config \<Rightarrow> world" where
  "world_of cfg = \<lparr>config = cfg, local = Map.empty, clock = 5000, lastRpcTime = 0, calls = []\<rparr>"

text \<open>The same state when the last invocation was at 4500, so that 1500 ms of the
  cooldown of 2000 ms remain to be waited for.\<close>

definition world_recent :: "config \<Rightarrow> world" where
  "world_recent cfg = (world_of cfg)\<lparr>lastRpcTime := 4500\<rparr>"

definition net_no_result :: network where
  "net_no_result k calldata = (No_result, 100)"

text \<open>A negative entry as a resolve call that starts in the state \<open>w0\<close> leaves it: the
  name is \<open>null\<close> (or empty), and the entry either was written during the call, or is
  the entry that was already there and fresh when the call started.\<close>

definition negative_entry :: "world \<Rightarrow> jsstring \<Rightarrow> entry option \<Rightarrow> bool" where
  "negative_entry w0 key v =
     (case v of
        None \<Rightarrow> False
      | Some e \<Rightarrow>
          \<not> truthy (entry_n e)
          \<and> (clock w0 \<le> entry_t e
             \<or> (local w0 key = Some e
                \<and> clock w0 - entry_t e < cacheTtlMinutes (config w0) * 60 * 1000)))"

text \<open>An address has a fresh entry without a name when the cache is read in the state
  \<open>w\<close>: the entry exists, \<open>now\<close> minus its timestamp is less than the TTL, and its name
  is \<open>null\<close> (or the empty string, which the code treats alike).\<close>

definition negative_hit :: "world \<Rightarrow> jsstring \<Rightarrow> bool" where
  "negative_hit w a =
     (case local w (cacheKey a) of
        None \<Rightarrow> False
      | Some e \<Rightarrow> clock w - entry_t e < cacheTtlMinutes (config w) * 60 * 1000
                 \<and> \<not> truthy (entry_n e))"

text \<open>A resolve call classifies an address as a cache hit, makes no transport call for
  it (in any spelling of its letters), and leaves it out of the mapping it returns.\<close>

definition no_call_and_absent :: "network \<Rightarrow> world \<Rightarrow> jsstring list \<Rightarrow> jsstring \<Rightarrow> bool" where
  "no_call_and_absent net w addresses a =
     (case resolveAddresses net w addresses of
        (r, w') \<Rightarrow>
          a \<notin> set (uncached_at w (clock w) addresses)
          \<and> (\<forall>c\<in>set (new_calls w w'). toLowerCase a \<notin> toLowerCase ` set (call_chunk c))
          \<and> (case r of Inl e \<Rightarrow> True | Inr names \<Rightarrow> names (toLowerCase a) = None))"

text \<open>The state of the examples with a negative entry for \<open>addr_A\<close>, written at 4000.\<close>

definition world_negative_A :: "bool \<Rightarrow> world" where
  "world_negative_A enabled =
     (world_of (config_of enabled 50))
       \<lparr>local := [cacheKey addr_A \<mapsto> \<lparr>entry_n = None, entry_t = 4000\<rparr>]\<rparr>"

text \<open>The state after \<open>addr_A\<close> has been resolved once, with caching enabled, from the
  empty cache at 5000 against the network that answers with a JSON-RPC error after
  100 ms.\<close>

definition world_after_A :: world where
  "world_after_A =
     \<lparr>config = config_of True 50,
      local = [cacheKey addr_A \<mapsto> \<lparr>entry_n = None, entry_t = 5100\<rparr>],
      clock = 5100, lastRpcTime = 0,
      calls = [(5000, [addr_A], multicall_layout [addr_A])]\<rparr>"

subsection \<open>A chunk whose call fails, in the specification's words\<close>

text \<open>The names that the cache read has found for the addresses of a resolve call:
  \<open>results\<close> when the loop over the chunks starts.\<close>

definition cache_hits :: "world \<Rightarrow> jsstring list \<Rightarrow> (jsstring \<rightharpoonup> jsstring)" where
  "cache_hits w addresses =
     (if cacheEnabled (config w)
      then fst (cache_read (local w) (clock w) (cacheTtlMinutes (config w) * 60 * 1000) addresses)
      else Map.empty)"

text \<open>The state after the transport call for the chunk \<open>c\<close> with call data \<open>cd\<close> has been
  issued in the state \<open>w\<close> and has taken \<open>d\<close> ms: the call is logged and time has passed;
  the store is as it was.\<close>

definition after_call :: "world \<Rightarrow> jsstring list \<Rightarrow> jsstring \<Rightarrow> int \<Rightarrow> world" where
  "after_call w c cd d = w\<lparr>calls := calls w @ [(clock w, c, cd)], clock := clock w + d\<rparr>"

text \<open>The number of entries that a result string declares: its second word, read the
  way \<open>decodeAggregate3\<close> reads it. There is none (\<open>NaN\<close>) when the string is empty or
  \<open>0x\<close>, or when the word does not start with a hex digit.\<close>

definition declared_length :: "jsstring \<Rightarrow> number" where
  "declared_length hex =
     (if hex = [] \<or> hex = js ''0x'' then None
      else uint (if startsWith hex (js ''0x'') then slice_from hex 2 else hex) (Some (int W)))"

text \<open>The exception with which the transport call for a chunk ends, by the reply:
  a rejected request or body, a result that is not a string, or a result that declares
  more entries than an array can hold. Every other reply is handled without an
  exception.\<close>

definition call_throws :: "reply \<Rightarrow> error option" where
  "call_throws rep =
     (case rep of
        Rejects \<Rightarrow> Some NetworkError
      | No_result \<Rightarrow> None
      | Result_not_string \<Rightarrow> Some TypeError
      | Result hex \<Rightarrow>
          (case declared_length hex of
             None \<Rightarrow> None
           | Some n \<Rightarrow> if int MAX_ARRAY_LENGTH < n then Some RangeError else None))"

text \<open>The names that a reply carries for the addresses of the chunk.\<close>

definition reply_names :: "jsstring list \<Rightarrow> reply \<Rightarrow> (jsstring \<rightharpoonup> jsstring)" where
  "reply_names c rep =
     (case rep of
        Result hex \<Rightarrow>
          (case decodeAggregate3 (Some hex) of
             Inl e \<Rightarrow> Map.empty
           | Inr names \<Rightarrow> set_names c names)
      | _ \<Rightarrow> Map.empty)"

text \<open>A reply without entries: a JSON-RPC error without result, or a result whose
  length word cannot be read or declares no entries.\<close>

definition no_entries :: "reply \<Rightarrow> bool" where
  "no_entries rep =
     (case rep of
        No_result \<Rightarrow> True
      | Result hex \<Rightarrow> (case declared_length hex of None \<Rightarrow> True | Some n \<Rightarrow> n \<le> 0)
      | _ \<Rightarrow> False)"

text \<open>Two more networks: one whose second call is rejected, and one that gives the same
  reply to every call.\<close>

definition net_second_rejects :: network where
  "net_second_rejects k calldata = (if k = 1 then (Rejects, 100) else (No_result, 100))"

definition net_always :: "reply \<Rightarrow> network" where
  "net_always rep k calldata = (rep, 100)"

text \<open>The state \<open>world_of (config_of True 1)\<close> when the cooldown has been waited for, and
  the state after the chunk \<open>[addr_A]\<close> has then been answered with no names: its call
  is logged and its address has a negative entry.\<close>

definition world_ready :: world where
  "world_ready =
     \<lparr>config = config_of True 1, local = Map.empty, clock = 5000, lastRpcTime = 5000,
      calls = []\<rparr>"

definition world_one_done :: world where
  "world_one_done =
     \<lparr>config = config_of True 1,
      local = [cacheKey addr_A \<mapsto> \<lparr>entry_n = None, entry_t = 5100\<rparr>],
      clock = 5100, lastRpcTime = 5000,
      calls = [(5000, [addr_A], multicall_layout [addr_A])]\<rparr>"

section \<open>Facts about the string primitives\<close>

lemma slice_0: "0 \<le> b \<Longrightarrow> slice s 0 b = take (nat b) s"
  by (auto simp: slice_def Let_def min_def)


subsection \<open>Lower case on Basic Latin\<close>

text \<open>On a string of Basic Latin code units \<open>toLowerCase\<close> maps unit by unit.\<close>

lemma ascii_simps [simp]:
  "ascii []" "ascii (c # s) \<longleftrightarrow> c < 128 \<and> ascii s" "ascii (s @ t) \<longleftrightarrow> ascii s \<and> ascii t"
  by (auto simp: ascii_def)

lemma ascii_take_drop: "ascii s \<Longrightarrow> ascii (take n s) \<and> ascii (drop n s)"
  by (auto simp: ascii_def list_all_iff dest: in_set_takeD in_set_dropD)

lemma ascii_lower: "ascii s \<Longrightarrow> ascii (map lower_unit s)"
  by (auto simp: ascii_def list_all_iff lower_unit_def)

lemma code_points_ascii: "ascii s \<Longrightarrow> code_points s = s"
  by (induction s rule: code_points.induct) simp_all

lemma lower_points_ascii: "ascii s \<Longrightarrow> lower_points before s = map lower_unit s"
  by (induction s arbitrary: before) (simp_all add: lower_point_def)

lemma code_units_lower_ascii:
  "ascii s \<Longrightarrow> concat (map code_units (map lower_unit s)) = map lower_unit s"
proof (induction s)
  case Nil
  show ?case by simp
next
  case (Cons c s)
  then have "code_units (lower_unit c) = [lower_unit c]"
    by (simp add: code_units_def lower_unit_def)
  with Cons show ?case by simp
qed

lemma toLowerCase_ascii: "ascii s \<Longrightarrow> toLowerCase s = map lower_unit s"
  by (simp add: toLowerCase_def code_points_ascii lower_points_ascii code_units_lower_ascii
      del: map_map)

lemma ascii_js: "list_all (\<lambda>c. of_char c < (128::nat)) s \<Longrightarrow> ascii (js s)"
  by (induction s) (simp_all add: js_def)

lemma ascii_hex: "list_all is_hex s \<Longrightarrow> ascii s"
  by (auto simp: ascii_def is_hex_def list_all_iff)

lemma VALID_ADDR_ascii:
  assumes "VALID_ADDR a"
  shows "ascii a" and "ascii (drop 2 a)"
proof -
  from assms show d: "ascii (drop 2 a)" by (simp add: VALID_ADDR_def ascii_hex)
  from assms have "take 2 a = [48, 120]" by (simp add: VALID_ADDR_def js_def)
  then have "ascii (take 2 a)" by simp
  with d have "ascii (take 2 a @ drop 2 a)" by (simp only: ascii_simps)
  then show "ascii a" by simp
qed

lemma VALID_ETH_RE_ascii:
  assumes "VALID_ETH_RE a"
  shows "ascii a" and "ascii (drop 2 a)"
  using assms VALID_ADDR_ascii [of a] by (simp_all add: VALID_ETH_RE_def VALID_ADDR_def)

text \<open>Beyond Basic Latin: the Kelvin sign, the dotted capital I, a capital sigma at the
  end of a word and inside one, and a Deseret capital, which is a surrogate pair.\<close>

lemma toLowerCase_examples:
  "toLowerCase [8490] = [107]"
  "toLowerCase [304] = [105, 775]"
  "toLowerCase [913, 931] = [945, 962]"
  "toLowerCase [913, 931, 913] = [945, 963, 945]"
  "toLowerCase [55297, 56320] = [55297, 56360]"
  by (simp_all add: toLowerCase_def lower_point_def lower_runs_def final_sigma_def
      case_ignorable_def cased_def case_ignorable_ranges_def cased_ranges_def code_units_def)

section \<open>Name sanitization: what \<open>sanitizeName\<close> returns\<close>

lemma stripped_denylist: "stripped c \<longleftrightarrow> c \<in> denylist"
  by (auto simp: stripped_def denylist_def)

lemma sanitizeName_eq:
  "sanitizeName s =
     (let r = filter (\<lambda>c. c \<notin> denylist) s in if r = [] then None else Some (take 64 r))"
  by (simp add: sanitizeName_def Let_def slice_0 MAX_NAME_LENGTH_def stripped_denylist)

text \<open>
  C3. For every string \<open>s\<close>, \<open>sanitizeName s\<close> removes every code unit of the
  denylist, returns \<open>null\<close> when nothing remains and the first 64 code units of the
  remainder otherwise. So a result that is not \<open>null\<close> is never empty, never longer
  than 64 and holds no denylisted code unit; and the raw name made of \<open>ab\<close>, U+200B, \<open>cd\<close>
  and 70 times \<open>e\<close> becomes \<open>abcd\<close> followed by 60 times \<open>e\<close>, 64 code units.
\<close>

theorem sanitizeName_spec:
  "sanitizeName s =
     (let r = filter (\<lambda>c. c \<notin> denylist) s in if r = [] then None else Some (take 64 r))
   \<and> (case sanitizeName s of
        None \<Rightarrow> filter (\<lambda>c. c \<notin> denylist) s = []
      | Some r \<Rightarrow> r \<noteq> [] \<and> length r \<le> 64 \<and> set r \<inter> denylist = {})
   \<and> sanitizeName (js ''ab'' @ [0x200B] @ js ''cd'' @ replicate 70 (of_char CHR ''e''))
       = Some (js ''abcd'' @ replicate 60 (of_char CHR ''e''))"
proof (intro conjI)
  show "sanitizeName s =
     (let r = filter (\<lambda>c. c \<notin> denylist) s in if r = [] then None else Some (take 64 r))"
    by (rule sanitizeName_eq)
  show "case sanitizeName s of
        None \<Rightarrow> filter (\<lambda>c. c \<notin> denylist) s = []
      | Some r \<Rightarrow> r \<noteq> [] \<and> length r \<le> 64 \<and> set r \<inter> denylist = {}"
    by (auto simp: sanitizeName_eq Let_def dest: in_set_takeD)
  show "sanitizeName (js ''ab'' @ [0x200B] @ js ''cd'' @ replicate 70 (of_char CHR ''e''))
       = Some (js ''abcd'' @ replicate 60 (of_char CHR ''e''))"
    by (simp add: sanitizeName_def js_def stripped_def MAX_NAME_LENGTH_def slice_0)
qed

section \<open>ABI encoding: the words of the call data\<close>

lemma abi_word_be: "abi_word v = be_digits 64 v"
  by (simp add: abi_word_def be_digits_def)

lemma be_digits_Suc: "be_digits (Suc m) v = be_digits m (v div 16) @ [hexdigit (v mod 16)]"
proof -
  have "(v div 16 ^ (m - k)) = (v div 16) div 16 ^ (m - 1 - k)" if "k < m" for k
  proof -
    from that have "m - k = Suc (m - 1 - k)" by simp
    then show ?thesis by (simp add: div_mult2_eq)
  qed
  then show ?thesis
    by (simp add: be_digits_def)
qed

lemma be_digits_0: "be_digits m 0 = replicate m 48"
  by (induction m) (simp_all add: be_digits_Suc hexdigit_def replicate_append_same, simp add: be_digits_def)

lemma length_toString16: "n < 16 ^ Suc m \<Longrightarrow> length (toString16 n) \<le> Suc m"
proof (induction m arbitrary: n)
  case 0
  then show ?case by (simp add: toString16.simps)
next
  case (Suc m)
  show ?case
  proof (cases "n < 16")
    case True
    then show ?thesis by (simp add: toString16.simps)
  next
    case False
    from Suc.prems have "n div 16 < 16 ^ Suc m" by (simp add: less_mult_imp_div_less)
    from Suc.IH [OF this] False show ?thesis
      by (subst toString16.simps) simp
  qed
qed

lemma padStart_zero: "padStart n (js ''0'') s = replicate (n - length s) 48 @ s"
proof -
  have "concat (replicate k [48::nat]) = replicate k 48" for k
    by (induction k) simp_all
  then show ?thesis by (simp add: padStart_def js_def)
qed

lemma padStart_toString16: "n < 16 ^ Suc m \<Longrightarrow> padStart (Suc m) (js ''0'') (toString16 n) = be_digits (Suc m) n"
proof (induction m arbitrary: n)
  case 0
  then show ?case by (simp add: toString16.simps padStart_zero be_digits_def)
next
  case (Suc m)
  show ?case
  proof (cases "n < 16")
    case True
    then have "n div 16 = 0" by simp
    with True show ?thesis
      by (simp add: toString16.simps padStart_zero be_digits_Suc [of "Suc m"] be_digits_0 )
  next
    case False
    from Suc.prems have lt: "n div 16 < 16 ^ Suc m" by (simp add: less_mult_imp_div_less)
    have len: "length (toString16 (n div 16)) \<le> Suc m" by (rule length_toString16 [OF lt])
    have "padStart (Suc (Suc m)) (js ''0'') (toString16 n)
        = padStart (Suc m) (js ''0'') (toString16 (n div 16)) @ [hexdigit (n mod 16)]"
      using False len by (subst toString16.simps) (simp add: padStart_zero Suc_diff_le)
    also have "\<dots> = be_digits (Suc (Suc m)) n"
      by (simp add: Suc.IH [OF lt] be_digits_Suc [of "Suc m"])
    finally show ?thesis .
  qed
qed

lemma pad32_toString16: "n < 16 ^ 64 \<Longrightarrow> pad32 (toString16 n) = abi_word n"
  using padStart_toString16 [of n 63] by (simp add: pad32_def W_def abi_word_be)

lemma for_each_push:
  "length ws + length xs \<le> MAX_ARRAY_LENGTH \<Longrightarrow>
   for_each (\<lambda>x ws. push ws (g x)) xs ws = Inr (ws @ map g xs)"
  by (induction xs arbitrary: ws) (simp_all add: push_def)

lemma for_each_append_blocks:
  assumes step: "\<And>x ws. x \<in> set xs \<Longrightarrow> length ws + k \<le> MAX_ARRAY_LENGTH \<Longrightarrow>
                   body x ws = Inr (ws @ h x)"
    and len: "\<And>x. x \<in> set xs \<Longrightarrow> length (h x) = k"
    and room: "length ws + k * length xs \<le> MAX_ARRAY_LENGTH"
  shows "for_each body xs ws = Inr (ws @ concat (map h xs))"
  using assms
proof (induction xs arbitrary: ws)
  case Nil
  then show ?case by simp
next
  case (Cons x xs)
  have room1: "length ws + k \<le> MAX_ARRAY_LENGTH"
    using Cons.prems(3) by simp
  have b: "body x ws = Inr (ws @ h x)"
    using Cons.prems(1) [of x ws] room1 by simp
  have lh: "length (h x) = k"
    using Cons.prems(2) [of x] by simp
  have room2: "length (ws @ h x) + k * length xs \<le> MAX_ARRAY_LENGTH"
    using Cons.prems(3) lh by simp
  have "for_each body xs (ws @ h x) = Inr ((ws @ h x) @ concat (map h xs))"
  proof (rule Cons.IH)
    show "body y vs = Inr (vs @ h y)" if "y \<in> set xs" "length vs + k \<le> MAX_ARRAY_LENGTH" for y vs
      using Cons.prems(1) [of y vs] that by simp
    show "length (h y) = k" if "y \<in> set xs" for y
      using Cons.prems(2) [of y] that by simp
    show "length (ws @ h x) + k * length xs \<le> MAX_ARRAY_LENGTH" by (rule room2)
  qed
  with b show ?case by simp
qed

lemma startsWith_append: "startsWith (p @ s) p"
  by (simp add: startsWith_def)

lemma indexOf_prefix: "indexOf (p @ s) p = Some 0"
proof (cases "p @ s")
  case Nil
  then show ?thesis by (simp add: indexOf_def)
next
  case (Cons c cs)
  have "startsWith (c # cs) p"
    using startsWith_append [of p s] Cons by simp
  with Cons show ?thesis by (simp add: indexOf_def)
qed

lemma replace_prefix: "replace (p @ s) p [] = s"
  by (simp add: replace_def indexOf_prefix)

lemma VALID_ADDR_split:
  assumes "VALID_ADDR a"
  shows "a = js ''0x'' @ drop 2 a" and "length (drop 2 a) = 40"
proof -
  from assms have "take 2 a = js ''0x''" and "length a = 42"
    by (simp_all add: VALID_ADDR_def)
  then show "a = js ''0x'' @ drop 2 a" and "length (drop 2 a) = 40"
    using append_take_drop_id [of 2 a] by simp_all
qed


lemma lower_0x: "ascii s \<Longrightarrow> toLowerCase (js ''0x'' @ s) = js ''0x'' @ toLowerCase s"
  by (simp add: toLowerCase_ascii js_def lower_unit_def)

lemma encodeReverseResolve_valid:
  assumes "VALID_ADDR a"
  shows "encodeReverseResolve a = js ''0x9af8b7aa'' @ address_word a"
proof -
  have "toLowerCase a = js ''0x'' @ toLowerCase (drop 2 a)"
    using VALID_ADDR_split(1) [OF assms] lower_0x [OF VALID_ADDR_ascii(2) [OF assms]] by simp
  then have "replace (toLowerCase a) (js ''0x'') [] = toLowerCase (drop 2 a)"
    by (simp add: replace_prefix)
  moreover have "length (toLowerCase (drop 2 a)) = 40"
    using VALID_ADDR_split(2) [OF assms] VALID_ADDR_ascii(2) [OF assms]
    by (simp add: toLowerCase_ascii)
  ultimately show ?thesis
    by (simp add: encodeReverseResolve_def REVERSE_RESOLVE_SELECTOR_def pad32_def W_def
        padStart_zero address_word_def)
qed

lemma VALID_ADDR_WNS: "VALID_ADDR WNS_CONTRACT"
  by (simp add: VALID_ADDR_def WNS_CONTRACT_def js_def is_hex_def)

lemma wnsTarget_word:
  "pad32 (replace (toLowerCase WNS_CONTRACT) (js ''0x'') []) = address_word WNS_CONTRACT"
proof -
  have "toLowerCase WNS_CONTRACT = js ''0x'' @ toLowerCase (drop 2 WNS_CONTRACT)"
    using VALID_ADDR_split(1) [OF VALID_ADDR_WNS]
      lower_0x [OF VALID_ADDR_ascii(2) [OF VALID_ADDR_WNS]] by simp
  then have "replace (toLowerCase WNS_CONTRACT) (js ''0x'') [] = toLowerCase (drop 2 WNS_CONTRACT)"
    by (simp add: replace_prefix)
  moreover have "length (toLowerCase (drop 2 WNS_CONTRACT)) = 40"
    using VALID_ADDR_split(2) [OF VALID_ADDR_WNS] VALID_ADDR_ascii(2) [OF VALID_ADDR_WNS]
    by (simp add: toLowerCase_ascii)
  ultimately show ?thesis
    by (simp add: pad32_def W_def padStart_zero address_word_def)
qed

lemma small_words:
  "pad32 (js ''20'') = abi_word 0x20" "pad32 (js ''1'') = abi_word 1"
  "pad32 (js ''60'') = abi_word 0x60" "pad32 (js ''24'') = abi_word 0x24"
proof -
  have "js ''20'' = toString16 0x20" "js ''1'' = toString16 1"
       "js ''60'' = toString16 0x60" "js ''24'' = toString16 0x24"
    by (simp_all add: toString16.simps js_def hexdigit_def)
  then show "pad32 (js ''20'') = abi_word 0x20" "pad32 (js ''1'') = abi_word 1"
    "pad32 (js ''60'') = abi_word 0x60" "pad32 (js ''24'') = abi_word 0x24"
    by (simp_all add: pad32_toString16)
qed


lemma length_js [simp]: "length (js s) = length s"
  by (simp add: js_def)

lemma slice_from_drop: "0 \<le> a \<Longrightarrow> slice_from s a = drop (nat a) s"
  by (auto simp: slice_from_def slice_def Let_def min_def)

lemma padEnd_zero: "padEnd n (js ''0'') s = s @ replicate (n - length s) 48"
proof -
  have "concat (replicate k [48::nat]) = replicate k 48" for k
    by (induction k) simp_all
  then show ?thesis by (simp add: padEnd_def js_def)
qed

lemma length_abi_word: "length (abi_word v) = 64"
  by (simp add: abi_word_def)

lemma length_address_word: "VALID_ADDR a \<Longrightarrow> length (address_word a) = 64"
  using VALID_ADDR_split(2) [of a] VALID_ADDR_ascii(2) [of a]
  by (simp add: address_word_def toLowerCase_ascii)

lemma concat_element_words: "concat (element_words a) = call3_tuple a"
  by (simp add: element_words_def call3_tuple_def)

lemma push_element_words:
  assumes "VALID_ADDR a" and "length ws + 6 \<le> MAX_ARRAY_LENGTH"
  shows "push_element (replace (toLowerCase WNS_CONTRACT) (js ''0x'') []) a ws
         = Inr (ws @ element_words a)"
proof -
  have cd: "slice_from (encodeReverseResolve a) 2 = js ''9af8b7aa'' @ address_word a"
    by (simp add: encodeReverseResolve_valid [OF assms(1)] slice_from_drop js_def)
  have l: "length (address_word a) = 64"
    by (rule length_address_word [OF assms(1)])
  have w5: "slice (js ''9af8b7aa'' @ address_word a) 0 (int W) = js ''9af8b7aa'' @ take 56 (address_word a)"
    by (simp add: slice_0 W_def js_def)
  have w6: "padEnd W (js ''0'') (slice_from (js ''9af8b7aa'' @ address_word a) (int W))
            = drop 56 (address_word a) @ replicate 56 48"
    using l by (simp add: slice_from_drop W_def padEnd_zero)
  show ?thesis
    using assms(2)
    by (simp add: push_element_def cd w5 w6 wnsTarget_word small_words err_bind_def push_def
        element_words_def)
qed


lemma offset_word:
  assumes "n \<le> MAX_ARRAY_LENGTH" and "i < n"
  shows "pad32 (toString16 (n * 32 + i * ELEMENT_WORDS * 32)) = abi_word (32 * n + 192 * i)"
proof -
  have "n * 32 + i * 6 * 32 < 4294967296 * 224"
    using assms by (simp add: MAX_ARRAY_LENGTH_def)
  also have "\<dots> < (16::nat) ^ 64" by simp
  finally have "n * 32 + i * 6 * 32 < (16::nat) ^ 64" .
  then have "pad32 (toString16 (n * 32 + i * 6 * 32)) = abi_word (n * 32 + i * 6 * 32)"
    by (rule pad32_toString16)
  moreover have "n * 32 + i * 6 * 32 = 32 * n + 192 * i" by simp
  ultimately have "pad32 (toString16 (n * 32 + i * 6 * 32)) = abi_word (32 * n + 192 * i)"
    by (simp only:)
  then show ?thesis by (simp only: ELEMENT_WORDS_def)
qed

lemma encodeMulticall_eq:
  assumes valid: "list_all VALID_ADDR addresses"
    and room: "7 * length addresses + 2 \<le> MAX_ARRAY_LENGTH"
  shows "encodeMulticall addresses = Inr (multicall_layout addresses)"
proof -
  define n where "n = length addresses"
  have n: "n \<le> MAX_ARRAY_LENGTH" "n < 16 ^ 64"
    using room by (simp_all add: n_def MAX_ARRAY_LENGTH_def)
  define head where "head = [abi_word 0x20, abi_word n]"
  have p0: "push [] (pad32 (js ''20'')) = Inr [abi_word 0x20]"
    by (simp add: push_def MAX_ARRAY_LENGTH_def small_words)
  have p1: "push [abi_word 0x20] (pad32 (toString16 n)) = Inr head"
    by (simp add: push_def MAX_ARRAY_LENGTH_def pad32_toString16 [OF n(2)] head_def)
  have "for_each (\<lambda>i words. push words (pad32 (toString16 (n * 32 + i * ELEMENT_WORDS * 32))))
          [0..<n] head
        = Inr (head @ map (\<lambda>i. pad32 (toString16 (n * 32 + i * ELEMENT_WORDS * 32))) [0..<n])"
    using room by (intro for_each_push) (simp add: head_def n_def)
  moreover have "map (\<lambda>i. pad32 (toString16 (n * 32 + i * ELEMENT_WORDS * 32))) [0..<n]
        = map (\<lambda>i. abi_word (32 * n + 192 * i)) [0..<n]"
    using offset_word [OF n(1)] by simp
  ultimately have p2:
    "for_each (\<lambda>i words. push words (pad32 (toString16 (n * 32 + i * ELEMENT_WORDS * 32))))
          [0..<n] head
        = Inr (head @ map (\<lambda>i. abi_word (32 * n + 192 * i)) [0..<n])"
    by simp
  define offs where "offs = head @ map (\<lambda>i. abi_word (32 * n + 192 * i)) [0..<n]"
  have p3: "for_each (push_element (replace (toLowerCase WNS_CONTRACT) (js ''0x'') [])) addresses offs
        = Inr (offs @ concat (map element_words addresses))"
  proof (rule for_each_append_blocks [where k = 6])
    show "push_element (replace (toLowerCase WNS_CONTRACT) (js ''0x'') []) a ws
          = Inr (ws @ element_words a)"
      if "a \<in> set addresses" "length ws + 6 \<le> MAX_ARRAY_LENGTH" for a ws
      using that valid by (intro push_element_words) (simp_all add: list_all_iff)
    show "length (element_words a) = 6" for a
      by (simp add: element_words_def)
    show "length offs + 6 * length addresses \<le> MAX_ARRAY_LENGTH"
      using room by (simp add: offs_def head_def n_def)
  qed
  have cc: "concat (concat (map element_words addresses)) = concat (map call3_tuple addresses)"
    by (induction addresses) (simp_all add: concat_element_words)
  have "encodeMulticall addresses
        = Inr (AGGREGATE3_SELECTOR @ concat (offs @ concat (map element_words addresses)))"
    unfolding encodeMulticall_def Let_def n_def [symmetric]
    by (simp add: p0 p1 p2 p3 err_bind_def offs_def [symmetric])
  also have "AGGREGATE3_SELECTOR @ concat (offs @ concat (map element_words addresses))
        = multicall_layout addresses"
    by (simp add: multicall_layout_def Let_def n_def [symmetric] offs_def head_def cc
        AGGREGATE3_SELECTOR_def)
  finally show ?thesis .
qed


lemma replicate_numeral_eval: "replicate (numeral k) x = x # replicate (pred_numeral k) x"
  by (simp add: numeral_eq_Suc)

lemma padStart_48: "padStart n [48] s = replicate (n - length s) 48 @ s"
  using padStart_zero [of n s] by (simp add: js_def)

lemma abi_word_eval: "abi_word v = pad32 (toString16 v)" if "v < 16 ^ 64"
  using that by (simp add: pad32_toString16)

text \<open>
  C1. For every list of \<open>N\<close> valid addresses (the empty list included) whose word
  array fits an array, \<open>encodeMulticall\<close> returns the outer selector followed by
  exactly: the word 0x20, the word \<open>N\<close>, the \<open>N\<close> offset words \<open>32 * N + 192 * i\<close>, and
  for each input address the six-word tuple of the WNS contract address, 1, 0x60,
  0x24 and the 36 bytes of inner call data (inner selector, then the address in
  lower case without \<open>0x\<close>, left-padded to a word), zero-padded on the right to two
  words.
\<close>

theorem encodeMulticall_layout:
  assumes "list_all VALID_ADDR addresses"
    and "7 * length addresses + 2 \<le> MAX_ARRAY_LENGTH"
  shows "encodeMulticall addresses = Inr (multicall_layout addresses)"
  using assms by (rule encodeMulticall_eq)

text \<open>The theorem at two addresses, with the call data written out.\<close>

theorem encodeMulticall_layout_witness:
  "list_all VALID_ADDR [js ''0xAbCdEf0123456789aBcDeF0123456789abcdef01'',
                        js ''0x00000000000000000000000000000000000000ff'']
   \<and> 7 * length [js ''0xAbCdEf0123456789aBcDeF0123456789abcdef01'',
                   js ''0x00000000000000000000000000000000000000ff''] + 2 \<le> MAX_ARRAY_LENGTH
   \<and> encodeMulticall [js ''0xAbCdEf0123456789aBcDeF0123456789abcdef01'',
                       js ''0x00000000000000000000000000000000000000ff'']
     = Inr (js (''0x82ad56cb''
        @ ''0000000000000000000000000000000000000000000000000000000000000020''
        @ ''0000000000000000000000000000000000000000000000000000000000000002''
        @ ''0000000000000000000000000000000000000000000000000000000000000040''
        @ ''0000000000000000000000000000000000000000000000000000000000000100''
        @ ''0000000000000000000000000000000000696760e15f265e828db644a0c242eb''
        @ ''0000000000000000000000000000000000000000000000000000000000000001''
        @ ''0000000000000000000000000000000000000000000000000000000000000060''
        @ ''0000000000000000000000000000000000000000000000000000000000000024''
        @ ''9af8b7aa000000000000000000000000abcdef0123456789abcdef0123456789''
        @ ''abcdef0100000000000000000000000000000000000000000000000000000000''
        @ ''0000000000000000000000000000000000696760e15f265e828db644a0c242eb''
        @ ''0000000000000000000000000000000000000000000000000000000000000001''
        @ ''0000000000000000000000000000000000000000000000000000000000000060''
        @ ''0000000000000000000000000000000000000000000000000000000000000024''
        @ ''9af8b7aa00000000000000000000000000000000000000000000000000000000''
        @ ''000000ff00000000000000000000000000000000000000000000000000000000''))"
proof -
  have v: "list_all VALID_ADDR [js ''0xAbCdEf0123456789aBcDeF0123456789abcdef01'',
                        js ''0x00000000000000000000000000000000000000ff'']"
    by (simp add: VALID_ADDR_def js_def is_hex_def)
  have r: "7 * length [js ''0xAbCdEf0123456789aBcDeF0123456789abcdef01'',
                   js ''0x00000000000000000000000000000000000000ff''] + 2 \<le> MAX_ARRAY_LENGTH"
    by (simp add: MAX_ARRAY_LENGTH_def)
  show ?thesis
    using v r encodeMulticall_layout [OF v r]
    by (simp add: multicall_layout_def call3_tuple_def address_word_def abi_word_eval
        pad32_def W_def padStart_48 toString16.simps hexdigit_def WNS_CONTRACT_def
        toLowerCase_ascii lower_unit_def js_def replicate_numeral_eval)
qed

section \<open>Decoding: what \<open>decodeAggregate3\<close> returns\<close>

lemma for_each_push_overflow:
  "MAX_ARRAY_LENGTH < length ws + length xs \<Longrightarrow> length ws \<le> MAX_ARRAY_LENGTH \<Longrightarrow>
   for_each (\<lambda>x ws. push ws (g x)) xs ws = Inl RangeError"
proof (induction xs arbitrary: ws)
  case Nil
  then show ?case by simp
next
  case (Cons x xs)
  show ?case
  proof (cases "length ws < MAX_ARRAY_LENGTH")
    case True
    then have "for_each (\<lambda>x ws. push ws (g x)) xs (ws @ [g x]) = Inl RangeError"
      using Cons.prems by (intro Cons.IH) simp_all
    with True show ?thesis by (simp add: push_def)
  next
    case False
    then show ?thesis by (simp add: push_def)
  qed
qed

lemma decode_slot_fields:
  "decode_slot data i =
     (if slot_flag data i \<noteq> Some 1 then None
      else if falsy (slot_bytesLen data i) then None
      else if falsy (slot_strLen data i) then None
      else (case textDecoder_decode (hexToBytes (slot_strHex data i)) of
              None \<Rightarrow> None
            | Some raw \<Rightarrow> sanitizeName raw))"
  by (simp add: decode_slot_def Let_def slot_flag_def slot_base_def slot_bytesLen_def
      slot_bytesBase_def slot_strLen_def slot_strHex_def W_def)

text \<open>What \<open>decodeAggregate3\<close> returns, by the declared length \<open>n\<close>.\<close>

lemma decodeAggregate3_missing:
  "decodeAggregate3 None = Inr []" "decodeAggregate3 (Some []) = Inr []"
  "decodeAggregate3 (Some (js ''0x'')) = Inr []"
  by (simp_all add: decodeAggregate3_def)

lemma decodeAggregate3_by_length:
  assumes "hex \<noteq> []" and "hex \<noteq> js ''0x''"
    and "data = (if startsWith hex (js ''0x'') then slice_from hex 2 else hex)"
  shows "decodeAggregate3 (Some hex) =
     (case uint data (Some 64) of
        None \<Rightarrow> Inr []
      | Some n \<Rightarrow>
          if n \<le> 0 then Inr []
          else if n \<le> int MAX_ARRAY_LENGTH then Inr (map (decode_slot data) [0..<nat n])
          else Inl RangeError)"
proof (cases "uint data (Some 64)")
  case None
  then show ?thesis
    using assms by (simp add: decodeAggregate3_def falsy_def W_def)
next
  case (Some n)
  consider "n = 0" | "n < 0" | "0 < n" "n \<le> int MAX_ARRAY_LENGTH" | "int MAX_ARRAY_LENGTH < n"
    by linarith
  then show ?thesis
  proof cases
    case 1
    then show ?thesis
      using assms Some by (simp add: decodeAggregate3_def falsy_def W_def)
  next
    case 2
    then show ?thesis
      using assms Some by (simp add: decodeAggregate3_def falsy_def W_def to_integer_def)
  next
    case 3
    have "for_each (\<lambda>i names. push names (decode_slot data i)) [0..<nat n] []
          = Inr ([] @ map (decode_slot data) [0..<nat n])"
      using 3 by (intro for_each_push) simp
    then show ?thesis
      using assms Some 3 by (simp add: decodeAggregate3_def falsy_def W_def to_integer_def)
  next
    case 4
    have "for_each (\<lambda>i names. push names (decode_slot data i)) [0..<nat n] []
          = Inl RangeError"
      using 4 by (intro for_each_push_overflow) simp_all
    then show ?thesis
      using assms Some 4 by (simp add: decodeAggregate3_def falsy_def W_def to_integer_def)
  qed
qed

subsection \<open>A well-formed payload, decoded step by step\<close>

lemmas num_defs = to_integer_def num_add_def num_mul_def round53_def falsy_def
lemmas parse_defs = parseInt16_def is_js_space_def is_hex_def hex_value_def digit_value_def
lemmas read_defs = uint_def word_def slice_num_def slice_def num_defs parse_defs js_def W_def

lemma good_data_eq: "slice_from good_payload 2 = good_data"
  by (simp add: slice_from_def slice_def good_payload_def good_data_def js_def)

lemma good_n: "uint good_data (Some 64) = Some 2"
  by (simp add: good_data_def read_defs)

lemma good_base0: "slot_base good_data 0 = Some 256"
  by (simp add: slot_base_def good_data_def read_defs)

lemma good_flag0: "slot_flag good_data 0 = Some 0"
  by (simp add: slot_flag_def good_base0) (simp add: good_data_def read_defs)

lemma good_slot0: "decode_slot good_data 0 = None"
  by (simp add: decode_slot_fields good_flag0)

lemma good_base1: "slot_base good_data (Suc 0) = Some 448"
  by (simp add: slot_base_def good_data_def read_defs)

lemma good_flag1: "slot_flag good_data (Suc 0) = Some 1"
  by (simp add: slot_flag_def good_base1) (simp add: good_data_def read_defs)

lemma good_bytesBase1: "slot_bytesBase good_data (Suc 0) = Some 576"
  by (simp add: slot_bytesBase_def good_base1) (simp add: good_data_def read_defs)

lemma good_bytesLen1: "slot_bytesLen good_data (Suc 0) = Some 96"
  by (simp add: slot_bytesLen_def good_bytesBase1) (simp add: good_data_def read_defs)

lemma good_strLen1: "slot_strLen good_data (Suc 0) = Some 7"
  by (simp add: slot_strLen_def good_bytesBase1 num_defs) (simp add: good_data_def read_defs)

lemma good_strHex1: "slot_strHex good_data (Suc 0) = js ''6162632e776569''"
  by (simp add: slot_strHex_def good_bytesBase1 good_strLen1 num_defs)
     (simp add: good_data_def slice_num_def slice_def to_integer_def js_def)

lemma good_bytes1:
  "hexToBytes (js ''6162632e776569'') = [0x61, 0x62, 0x63, 0x2e, 0x77, 0x65, 0x69]"
  by (simp add: hexToBytes_def to_uint8_def read_defs upt_rec)

lemma good_slot1: "decode_slot good_data (Suc 0) = Some (js ''abc.wei'')"
  by (simp add: decode_slot_fields good_flag1 good_bytesLen1 good_strLen1 good_strHex1
      good_bytes1 falsy_def)
     (simp add: textDecoder_decode_def utf16_units_def sanitizeName_def stripped_def
      MAX_NAME_LENGTH_def js_def)

lemma decodeAggregate3_good:
  "decodeAggregate3 (Some good_payload) = Inr [None, Some (js ''abc.wei'')]"
proof -
  have s: "startsWith good_payload (js ''0x'')" "good_payload \<noteq> []"
    "good_payload \<noteq> js ''0x''"
    by (simp_all add: good_payload_def startsWith_def js_def)
  have "[0..<2] = [0, 1]" by (simp add: upt_rec)
  then show ?thesis
    using decodeAggregate3_by_length [OF s(2) s(3) refl]
    by (simp add: s(1) good_data_eq good_n MAX_ARRAY_LENGTH_def good_slot0 good_slot1)
qed

subsection \<open>A payload that declares more slots than an array can hold\<close>

lemma huge_n: "uint (slice_from huge_payload 2) (Some 64) = Some 4294967296"
  by (simp add: huge_payload_def uint_def word_def slice_num_def slice_from_def slice_def
      to_integer_def num_add_def round53_def W_def js_def parseInt16_def is_js_space_def
      is_hex_def hex_value_def digit_value_def)

text \<open>
  C2 (the code departs from the claim). \<open>decodeAggregate3\<close> does not return an array
  for every input string: the declared length is read from the payload and the loop
  pushes one entry per declared slot, whatever the payload holds. On a payload that
  declares \<open>2^32\<close> slots the push that would make the array longer than an array can
  be throws a \<open>RangeError\<close>, which nothing catches.
\<close>

theorem decodeAggregate3_huge_length:
  "decodeAggregate3 (Some huge_payload) = Inl RangeError"
proof -
  have s: "startsWith huge_payload (js ''0x'')" "huge_payload \<noteq> []" "huge_payload \<noteq> js ''0x''"
    by (simp_all add: huge_payload_def startsWith_def js_def)
  show ?thesis
    using decodeAggregate3_by_length [OF s(2) s(3) refl]
    by (simp add: s(1) huge_n MAX_ARRAY_LENGTH_def)
qed

text \<open>A payload that is not hex has no length word: the decoder returns no entries.\<close>

lemma garbage_data: "slice_from (js ''0xzz'') 2 = js ''zz''"
  by (simp add: slice_from_def slice_def js_def)

lemma garbage_n: "uint (js ''zz'') (Some 64) = None"
  by (simp add: uint_def word_def slice_num_def slice_def to_integer_def num_add_def
      parseInt16_def js_def W_def)

lemma decodeAggregate3_garbage: "decodeAggregate3 (Some (js ''0xzz'')) = Inr []"
proof -
  have "js ''0xzz'' \<noteq> []" "js ''0xzz'' \<noteq> js ''0x''" "startsWith (js ''0xzz'') (js ''0x'')"
    by (simp_all add: js_def startsWith_def)
  then show ?thesis
    by (simp add: decodeAggregate3_def garbage_data garbage_n falsy_def W_def)
qed

text \<open>The outcome of \<open>decodeAggregate3\<close> on every result string, by the length it
  declares.\<close>

lemma decode_outcome:
  "decodeAggregate3 (Some hex) =
     (case declared_length hex of
        None \<Rightarrow> Inr []
      | Some n \<Rightarrow>
          if n \<le> 0 then Inr []
          else if n \<le> int MAX_ARRAY_LENGTH
          then Inr (map (decode_slot (if startsWith hex (js ''0x'') then slice_from hex 2 else hex))
                      [0..<nat n])
          else Inl RangeError)"
proof (cases "hex = [] \<or> hex = js ''0x''")
  case True
  then show ?thesis
    using decodeAggregate3_missing by (auto simp: declared_length_def)
next
  case False
  then have "hex \<noteq> []" "hex \<noteq> js ''0x''" by simp_all
  from decodeAggregate3_by_length [OF this refl] False show ?thesis
    by (simp add: declared_length_def W_def)
qed

lemma declared_length_examples:
  "declared_length (js ''0xzz'') = None" "declared_length huge_payload = Some 4294967296"
proof -
  have "js ''0xzz'' \<noteq> []" "js ''0xzz'' \<noteq> js ''0x''" "startsWith (js ''0xzz'') (js ''0x'')"
    by (simp_all add: js_def startsWith_def)
  then show "declared_length (js ''0xzz'') = None"
    by (simp add: declared_length_def garbage_data garbage_n W_def)
  have "huge_payload \<noteq> []" "huge_payload \<noteq> js ''0x''" "startsWith huge_payload (js ''0x'')"
    by (simp_all add: huge_payload_def js_def startsWith_def)
  then show "declared_length huge_payload = Some 4294967296"
    by (simp add: declared_length_def huge_n W_def)
qed

section \<open>Subject selection: the three tiers\<close>

lemma fold_upd_lookup:
  "fold (\<lambda>addr scores. scores(addr \<mapsto> f addr)) xs m a = (if a \<in> set xs then Some (f a) else m a)"
  by (induction xs arbitrary: m) auto

lemma score_map_lookup:
  "a \<in> set addresses \<Longrightarrow> score_map u addresses a = Some (address_score u a)"
  by (simp add: score_map_def fold_upd_lookup)

lemma pick_best_scores:
  assumes "\<And>a. a \<in> set xs \<Longrightarrow> scores a = Some (f a)"
  shows "pick_best scores xs start
         = fold (\<lambda>a (b, s). if f a > s then (a, f a) else (b, s)) xs start"
  using assms unfolding pick_best_def
proof (induction xs arbitrary: start)
  case Nil
  then show ?case by simp
next
  case (Cons x xs)
  obtain b s where st: "start = (b, s)" by (cases start)
  have "scores x = Some (f x)" using Cons.prems by simp
  moreover have "\<And>a. a \<in> set xs \<Longrightarrow> scores a = Some (f a)" using Cons.prems by simp
  ultimately show ?case using Cons.IH by (simp add: st)
qed

lemma Max_Cons: "Max (f ` set (x # y # ys)) = max (f x) (Max (f ` set (y # ys)))"
  using Max_insert [of "f ` set (y # ys)" "f x"] by simp

lemma first_with_max_skip_smaller:
  assumes "f b < f x"
  shows "first_with_max f (b # x # xs) = first_with_max f (x # xs)"
proof -
  have le: "f x \<le> Max (f ` set (x # xs))" by simp
  have "Max (f ` set (b # x # xs)) = max (f b) (Max (f ` set (x # xs)))"
    by (rule Max_Cons)
  with le assms have m: "Max (f ` set (b # x # xs)) = Max (f ` set (x # xs))"
    by linarith
  from le assms have "f b \<noteq> Max (f ` set (x # xs))" by linarith
  then show ?thesis
    unfolding first_with_max_def m by simp
qed

lemma first_with_max_skip_second:
  assumes "f x \<le> f b"
  shows "first_with_max f (b # x # xs) = first_with_max f (b # xs)"
proof -
  have m: "Max (f ` set (b # x # xs)) = Max (f ` set (b # xs))"
  proof (cases xs)
    case Nil
    with assms show ?thesis by (simp add: max_def)
  next
    case (Cons y ys)
    have "Max (f ` set (b # x # xs)) = max (f b) (max (f x) (Max (f ` set xs)))"
      unfolding Cons by (simp only: Max_Cons)
    also have "\<dots> = max (f b) (Max (f ` set xs))"
      using assms by (simp add: max_def)
    also have "\<dots> = Max (f ` set (b # xs))"
      unfolding Cons by (simp only: Max_Cons)
    finally show ?thesis .
  qed
  show ?thesis
  proof (cases "f b = Max (f ` set (b # xs))")
    case True
    then show ?thesis unfolding first_with_max_def m by simp
  next
    case False
    have "f b \<le> Max (f ` set (b # xs))" by simp
    with False assms have "f x \<noteq> Max (f ` set (b # xs))" by linarith
    with False show ?thesis unfolding first_with_max_def m by simp
  qed
qed

lemma best_loop_first_with_max:
  "fold (\<lambda>a (b, s). if f a > s then (a, f a) else (b, s)) xs (b, f b)
   = (first_with_max f (b # xs), f (first_with_max f (b # xs)))"
proof (induction xs arbitrary: b)
  case Nil
  then show ?case by (simp add: first_with_max_def)
next
  case (Cons x xs)
  show ?case
  proof (cases "f x > f b")
    case True
    then show ?thesis
      using Cons.IH [of x] by (simp add: first_with_max_skip_smaller)
  next
    case False
    then have "f x \<le> f b" by simp
    then show ?thesis
      using Cons.IH [of b] False by (simp add: first_with_max_skip_second)
  qed
qed

lemma first_with_max_twice: "first_with_max f (b # b # xs) = first_with_max f (b # xs)"
  by (rule first_with_max_skip_second) simp

lemma first_with_max_props:
  assumes "xs \<noteq> []"
  shows "first_with_max f xs \<in> set xs" and "f (first_with_max f xs) = Max (f ` set xs)"
proof -
  have "Max (f ` set xs) \<in> f ` set xs"
    using assms by (intro Max_in) simp_all
  then obtain a where a: "a \<in> set xs" "f a = Max (f ` set xs)" by auto
  then have ne: "filter (\<lambda>a. f a = Max (f ` set xs)) xs \<noteq> []"
    by (auto simp: filter_empty_conv)
  then have "hd (filter (\<lambda>a. f a = Max (f ` set xs)) xs) \<in> set (filter (\<lambda>a. f a = Max (f ` set xs)) xs)"
    by (rule hd_in_set)
  then show "first_with_max f xs \<in> set xs" and "f (first_with_max f xs) = Max (f ` set xs)"
    by (simp_all add: first_with_max_def)
qed

text \<open>Tier 2 on a list that is not empty, when the URL parses.\<close>

lemma tier2_parsed:
  assumes "addresses \<noteq> []" and "parseURL href = Some u"
  shows "tier2 parseURL href addresses =
     Some (if Max (address_score u ` set addresses) \<noteq> 0
           then first_with_max (address_score u) addresses else last addresses)"
proof -
  obtain first rest where ad: "addresses = first # rest"
    using assms(1) by (cases addresses) auto
  have sc: "score_map u addresses a = Some (address_score u a)" if "a \<in> set addresses" for a
    using that by (rule score_map_lookup)
  have "pick_best (score_map u addresses) addresses (first, address_score u first)
        = fold (\<lambda>a (b, s). if address_score u a > s then (a, address_score u a) else (b, s))
            addresses (first, address_score u first)"
    by (rule pick_best_scores) (rule sc)
  also have "\<dots> = (first_with_max (address_score u) (first # addresses),
                    address_score u (first_with_max (address_score u) (first # addresses)))"
    by (rule best_loop_first_with_max)
  also have "first_with_max (address_score u) (first # addresses)
             = first_with_max (address_score u) addresses"
    unfolding ad by (rule first_with_max_twice)
  finally have pb: "pick_best (score_map u addresses) addresses (first, address_score u first)
        = (first_with_max (address_score u) addresses,
           address_score u (first_with_max (address_score u) addresses))" .
  have mx: "address_score u (first_with_max (address_score u) addresses)
            = Max (address_score u ` set addresses)"
    by (rule first_with_max_props(2) [OF assms(1)])
  have f: "score_map u addresses first = Some (address_score u first)"
    by (rule sc) (simp add: ad)
  have t3: "tier3 addresses = Some (last addresses)"
    using assms(1) by (simp add: tier3_def)
  have "tier2 parseURL href (first # rest) =
          (let (best, bestScore) =
                 pick_best (score_map u (first # rest)) (first # rest) (first, address_score u first)
           in if bestScore \<noteq> 0 then Some best else tier3 (first # rest))"
    by (simp only: tier2_def assms(2) option.case list.case f [unfolded ad])
  then have "tier2 parseURL href addresses =
          (let (best, bestScore) =
                 pick_best (score_map u addresses) addresses (first, address_score u first)
           in if bestScore \<noteq> 0 then Some best else tier3 addresses)"
    by (simp only: ad)
  then show ?thesis
    by (simp only: pb Let_def prod.case mx t3 if_distrib [of Some])
qed

lemma find_in_set: "find P xs = Some a \<Longrightarrow> a \<in> set xs"
  by (auto simp: find_Some_iff)

lemma matchAbbrToAddresses_in_set:
  "matchAbbrToAddresses ABBR_RE displayText addresses = Some a \<Longrightarrow> a \<in> set addresses"
  by (auto simp: matchAbbrToAddresses_def Let_def split: option.splits dest: find_in_set)

lemma tier3_in_set: "addresses \<noteq> [] \<Longrightarrow> \<exists>a\<in>set addresses. tier3 addresses = Some a"
  by (simp add: tier3_def)

lemma tier2_in_set:
  assumes "addresses \<noteq> []"
  shows "\<exists>a\<in>set addresses. tier2 parseURL href addresses = Some a"
proof (cases "parseURL href")
  case None
  then show ?thesis using tier3_in_set [OF assms] by (simp add: tier2_def)
next
  case (Some u)
  show ?thesis
    using tier2_parsed [of addresses parseURL href u] Some
      first_with_max_props(1) [OF assms, of "address_score u"] assms by simp
qed

text \<open>
  C10. For every candidate list that is not empty, every href and every display
  label (and whatever the URL parser and the abbreviated pattern are),
  \<open>pickSubjectAddress\<close> returns an element of the candidate list.
\<close>

theorem pickSubjectAddress_in_list:
  assumes "addresses \<noteq> []"
  shows "\<exists>a\<in>set addresses.
           pickSubjectAddress parseURL ABBR_RE href addresses displayText = Some a"
proof (cases "length addresses = 1")
  case True
  then show ?thesis by (simp add: pickSubjectAddress_def)
next
  case False
  show ?thesis
  proof (cases "truthy (matchAbbrToAddresses ABBR_RE displayText addresses)")
    case True
    then obtain a where "matchAbbrToAddresses ABBR_RE displayText addresses = Some a"
      by (auto simp: truthy_def split: option.splits)
    with True False show ?thesis
      using matchAbbrToAddresses_in_set [of ABBR_RE displayText addresses a]
      by (simp add: pickSubjectAddress_def)
  next
    case nohit: False
    show ?thesis
    proof (cases "if VALID_ETH_RE displayText
                  then find (\<lambda>addr. addr = toLowerCase displayText) addresses else None")
      case None
      with False nohit show ?thesis
        using tier2_in_set [OF assms, of parseURL href]
        by (simp add: pickSubjectAddress_def Let_def)
    next
      case (Some a)
      then have "a \<in> set addresses"
        by (auto split: if_splits dest: find_in_set)
      with Some False nohit show ?thesis
        by (simp add: pickSubjectAddress_def Let_def)
    qed
  qed
qed


text \<open>The theorem on two candidates with an href that does not parse and a label
  that matches nothing: the last candidate is returned.\<close>

theorem pickSubjectAddress_in_list_witness:
  "[addr_A, addr_B] \<noteq> []
   \<and> (\<exists>a\<in>set [addr_A, addr_B].
         pickSubjectAddress (\<lambda>href. None) DEFAULT_ABBR_RE (js ''not a url'') [addr_A, addr_B]
           (js ''View'') = Some a)
   \<and> pickSubjectAddress (\<lambda>href. None) DEFAULT_ABBR_RE (js ''not a url'') [addr_A, addr_B]
           (js ''View'') = Some addr_B"
proof -
  have "DEFAULT_ABBR_RE (js ''View'') = None"
    by (simp add: DEFAULT_ABBR_RE_def abbr_at_def boundary_def word_at_def is_word_def js_def
        upt_rec)
  then have "pickSubjectAddress (\<lambda>href. None) DEFAULT_ABBR_RE (js ''not a url'')
               [addr_A, addr_B] (js ''View'') = Some addr_B"
    by (simp add: pickSubjectAddress_def matchAbbrToAddresses_def truthy_def VALID_ETH_RE_def
        tier2_def tier3_def js_def)
  then show ?thesis
    using pickSubjectAddress_in_list [of "[addr_A, addr_B]" "\<lambda>href. None" DEFAULT_ABBR_RE
        "js ''not a url''" "js ''View''"]
    by simp
qed

lemma canonical_body:
  assumes "canonical_address c"
  shows "slice_from c 2 = drop 2 c" and "toLowerCase (drop 2 c) = drop 2 c" and "c \<noteq> []"
proof -
  show "slice_from c 2 = drop 2 c" by (simp add: slice_from_drop)
  from assms have a: "ascii c" "ascii (drop 2 c)"
    by (simp_all add: canonical_address_def VALID_ETH_RE_ascii)
  from assms have "toLowerCase c = c" by (simp add: canonical_address_def)
  then have "drop 2 (map lower_unit c) = drop 2 c" by (simp add: toLowerCase_ascii a)
  then show "toLowerCase (drop 2 c) = drop 2 c" by (simp add: toLowerCase_ascii a drop_map)
  from assms show "c \<noteq> []" by (auto simp: canonical_address_def VALID_ETH_RE_def)
qed

lemma matchAbbrToAddresses_canonical:
  assumes "list_all canonical_address addresses" and "ABBR_RE displayText = Some (p, s)"
  shows "matchAbbrToAddresses ABBR_RE displayText addresses = find (abbr_corresponds p s) addresses"
proof -
  have "find (\<lambda>addr. let hex = slice_from addr 2
                       in startsWith hex (toLowerCase p) \<and> endsWith hex (toLowerCase s)) addresses
        = find (abbr_corresponds p s) addresses"
    using assms(1)
    by (intro find_cong refl) (simp add: list_all_iff abbr_corresponds_def canonical_body Let_def)
  then show ?thesis
    by (simp add: matchAbbrToAddresses_def assms(2) Let_def)
qed

lemma find_exists: "\<exists>c\<in>set xs. P c \<Longrightarrow> \<exists>c\<in>set xs. find P xs = Some c"
  by (induction xs) auto

text \<open>
  C5. A list with exactly one candidate gives that candidate at once. And for every
  href, display label and list of candidates in canonical form: if the abbreviated
  pattern matches the label, with prefix \<open>p\<close> and suffix \<open>s\<close>, and some candidate
  corresponds to them, then \<open>pickSubjectAddress\<close> returns the first such candidate in
  list order, whatever the URL parser makes of the href.
\<close>

theorem pickSubjectAddress_tier1:
  "pickSubjectAddress parseURL ABBR_RE href [a] displayText = Some a
   \<and> (list_all canonical_address addresses \<and> ABBR_RE displayText = Some (p, s)
        \<and> (\<exists>c\<in>set addresses. abbr_corresponds p s c)
      \<longrightarrow> pickSubjectAddress parseURL ABBR_RE href addresses displayText
          = find (abbr_corresponds p s) addresses)"
proof (intro conjI impI)
  show "pickSubjectAddress parseURL ABBR_RE href [a] displayText = Some a"
    by (simp add: pickSubjectAddress_def)
next
  assume h: "list_all canonical_address addresses \<and> ABBR_RE displayText = Some (p, s)
        \<and> (\<exists>c\<in>set addresses. abbr_corresponds p s c)"
  then have m: "matchAbbrToAddresses ABBR_RE displayText addresses
                = find (abbr_corresponds p s) addresses"
    by (intro matchAbbrToAddresses_canonical) simp_all
  from h obtain c where c: "c \<in> set addresses" "find (abbr_corresponds p s) addresses = Some c"
    using find_exists [of addresses "abbr_corresponds p s"] by auto
  with h have "c \<noteq> []" by (auto simp: list_all_iff dest: canonical_body(3))
  show "pickSubjectAddress parseURL ABBR_RE href addresses displayText
          = find (abbr_corresponds p s) addresses"
  proof (cases "length addresses = 1")
    case True
    then obtain x where x: "addresses = [x]" by (cases addresses) auto
    with c show ?thesis by (simp add: pickSubjectAddress_def)
  next
    case False
    with m c \<open>c \<noteq> []\<close> show ?thesis
      by (simp add: pickSubjectAddress_def truthy_def)
  qed
qed

lemma find_first: "P x \<Longrightarrow> find P (x # xs) = Some x"
  by simp

lemma DEFAULT_ABBR_RE_at_0:
  assumes "abbr_at s 0 = Some m"
  shows "DEFAULT_ABBR_RE s = Some m"
proof -
  have "s \<noteq> []" using assms by (auto simp: abbr_at_def Let_def js_def split: if_splits)
  then have "[0..<length s] = 0 # [1..<length s]" by (simp add: upt_rec)
  then show ?thesis using assms by (simp add: DEFAULT_ABBR_RE_def)
qed

lemmas abbr_eval = abbr_at_def boundary_def word_at_def is_word_def is_hex_def is_sep_def js_def

lemmas score_eval = address_score_def path_signal_def query_signal_def hash_signal_def
  includes_str_def indexOf_def startsWith_def endsWith_def toLowerCase_ascii lower_unit_def js_def

lemma score_path_token:
  "address_score url_path_token addr_A = 10" "address_score url_path_token addr_B = - 5"
  by (simp_all add: url_path_token_def addr_A_def addr_B_def score_eval)

lemma canonical_A_B: "canonical_address addr_A" "canonical_address addr_B"
  by (simp_all add: canonical_address_def VALID_ETH_RE_def addr_A_def addr_B_def js_def
      is_hex_def toLowerCase_ascii lower_unit_def)

text \<open>The theorem on the candidates A and B with a label that abbreviates B, in an
  href whose structure favours A (score 10 against -5): B is returned.\<close>

theorem pickSubjectAddress_tier1_witness:
  "pickSubjectAddress example_parser DEFAULT_ABBR_RE href_path_token [addr_A]
     (js ''0xbbbb...0002'') = Some addr_A
   \<and> list_all canonical_address [addr_A, addr_B]
   \<and> DEFAULT_ABBR_RE (js ''0xbbbb...0002'') = Some (js ''bbbb'', js ''0002'')
   \<and> (\<exists>c\<in>set [addr_A, addr_B]. abbr_corresponds (js ''bbbb'') (js ''0002'') c)
   \<and> pickSubjectAddress example_parser DEFAULT_ABBR_RE href_path_token [addr_A, addr_B]
       (js ''0xbbbb...0002'') = Some addr_B
   \<and> address_score url_path_token addr_A = 10
   \<and> address_score url_path_token addr_B = - 5"
proof -
  have 1: "list_all canonical_address [addr_A, addr_B]"
    by (simp add: canonical_A_B)
  have 2: "DEFAULT_ABBR_RE (js ''0xbbbb...0002'') = Some (js ''bbbb'', js ''0002'')"
    by (rule DEFAULT_ABBR_RE_at_0) (simp add: abbr_eval)
  have nA: "\<not> abbr_corresponds (js ''bbbb'') (js ''0002'') addr_A"
    by (simp add: abbr_corresponds_def addr_A_def startsWith_def toLowerCase_ascii lower_unit_def
        js_def)
  have yB: "abbr_corresponds (js ''bbbb'') (js ''0002'') addr_B"
    by (simp add: abbr_corresponds_def addr_B_def startsWith_def endsWith_def toLowerCase_ascii
        lower_unit_def js_def)
  have 3: "\<exists>c\<in>set [addr_A, addr_B]. abbr_corresponds (js ''bbbb'') (js ''0002'') c"
    using yB by simp
  have 4: "find (abbr_corresponds (js ''bbbb'') (js ''0002'')) [addr_A, addr_B] = Some addr_B"
    using nA yB by simp
  show ?thesis
    using pickSubjectAddress_tier1 [of example_parser DEFAULT_ABBR_RE href_path_token addr_A
        "js ''0xbbbb...0002''" "[addr_A, addr_B]" "js ''bbbb''" "js ''0002''"]
      1 2 3 4 score_path_token
    by simp
qed












section \<open>Link collection: custom rules and the default pattern\<close>

lemma is_hex_word: "is_hex c \<Longrightarrow> is_word c"
  by (auto simp: is_hex_def is_word_def)

lemma VALID_ETH_RE_props:
  assumes "VALID_ETH_RE a"
  shows "length a = 42" and "a ! 0 = 48" and "is_word (a ! 0)" and "is_word (a ! 41)" and "a \<noteq> []"
proof -
  from assms show l: "length a = 42" by (simp add: VALID_ETH_RE_def)
  from assms have t: "take 2 a = [48, 120]" by (simp add: VALID_ETH_RE_def js_def)
  have "a ! 0 = take 2 a ! 0" by simp
  with t show z: "a ! 0 = 48" by simp
  then show "is_word (a ! 0)" by (simp add: is_word_def)
  from assms have "list_all is_hex (drop 2 a)" by (simp add: VALID_ETH_RE_def)
  moreover have "drop 2 a ! 39 = a ! 41" using l by simp
  moreover have "39 < length (drop 2 a)" using l by simp
  ultimately have "is_hex (a ! 41)" by (metis list_all_length)
  then show "is_word (a ! 41)" by (rule is_hex_word)
  from l show "a \<noteq> []" by auto
qed

lemma eth_at_zero: "eth_at s p \<Longrightarrow> p < length s \<and> s ! p = 48"
proof -
  assume "eth_at s p"
  then have v: "VALID_ETH_RE (take 42 (drop p s))" by (simp add: eth_at_def)
  then have "take 42 (drop p s) \<noteq> []" by (rule VALID_ETH_RE_props(5))
  then have p: "p < length s" by (cases "p < length s") auto
  from VALID_ETH_RE_props(2) [OF v] p have "s ! p = 48"
    by (simp add: nth_take)
  with p show ?thesis by simp
qed

lemma eth_at_after_prefix:
  assumes "VALID_ETH_RE a" and "pre = [] \<or> \<not> is_word (last pre)"
  shows "eth_at (pre @ a) (length pre)"
proof -
  have l: "length a = 42" by (rule VALID_ETH_RE_props(1) [OF assms(1)])
  have b1: "boundary (pre @ a) (length pre)"
  proof -
    have "word_at (pre @ a) (int (length pre))"
      using VALID_ETH_RE_props(3) [OF assms(1)] l by (simp add: word_at_def nth_append)
    moreover have "\<not> word_at (pre @ a) (int (length pre) - 1)"
    proof (cases "pre = []")
      case True
      then show ?thesis by (simp add: word_at_def)
    next
      case False
      then have "(pre @ a) ! nat (int (length pre) - 1) = last pre"
        by (simp add: nth_append last_conv_nth nat_diff_distrib')
      with assms(2) False show ?thesis by (simp add: word_at_def)
    qed
    ultimately show ?thesis by (simp add: boundary_def)
  qed
  have b2: "boundary (pre @ a) (length pre + 42)"
  proof -
    have "(pre @ a) ! nat (int (length pre + 42) - 1) = a ! 41"
      by (simp add: nth_append nat_diff_distrib' nat_add_distrib)
    then have "word_at (pre @ a) (int (length pre + 42) - 1)"
      using VALID_ETH_RE_props(4) [OF assms(1)] l by (simp add: word_at_def)
    moreover have "\<not> word_at (pre @ a) (int (length pre + 42))"
      using l by (simp add: word_at_def)
    ultimately show ?thesis by (simp add: boundary_def)
  qed
  show ?thesis
    using b1 b2 assms(1) l by (simp add: eth_at_def)
qed

lemma find_append_None: "find P xs = None \<Longrightarrow> find P (xs @ ys) = find P ys"
  by (induction xs) (auto split: if_splits)

lemma find_upt_first:
  assumes "i \<le> p" and "p < n" and "P p" and "\<And>q. i \<le> q \<Longrightarrow> q < p \<Longrightarrow> \<not> P q"
  shows "find P [i..<n] = Some p"
proof -
  have "[i..<n] = [i..<p] @ p # [Suc p..<n]"
    using assms(1,2) by (metis le_Suc_ex less_imp_le_nat upt_add_eq_append upt_conv_Cons)
  moreover have "find P [i..<p] = None"
    using assms(4) by (auto simp: find_None_iff)
  ultimately show ?thesis using assms(3) by (simp add: find_append_None)
qed

lemma DEFAULT_ETH_RE_after_prefix:
  assumes "VALID_ETH_RE a" and "pre = [] \<or> \<not> is_word (last pre)" and "48 \<notin> set pre"
    and "i \<le> length pre"
  shows "DEFAULT_ETH_RE (pre @ a) i = Some (a, length pre + 42)"
proof -
  have l: "length a = 42" by (rule VALID_ETH_RE_props(1) [OF assms(1)])
  have "find (eth_at (pre @ a)) [i..<length (pre @ a)] = Some (length pre)"
  proof (rule find_upt_first)
    show "i \<le> length pre" by (rule assms(4))
    show "length pre < length (pre @ a)" using l by simp
    show "eth_at (pre @ a) (length pre)" by (rule eth_at_after_prefix [OF assms(1,2)])
    show "\<not> eth_at (pre @ a) q" if "i \<le> q" "q < length pre" for q
    proof
      assume "eth_at (pre @ a) q"
      then have "(pre @ a) ! q = 48" by (simp add: eth_at_zero)
      with that(2) have "pre ! q = 48" by (simp add: nth_append)
      with that(2) assms(3) show False by (metis nth_mem)
    qed
  qed
  then show ?thesis using l by (simp add: DEFAULT_ETH_RE_def)
qed

lemma DEFAULT_ETH_RE_at_end: "DEFAULT_ETH_RE s (length s) = None"
  by (simp add: DEFAULT_ETH_RE_def)

lemma allAddressesInHref_one:
  assumes "VALID_ETH_RE a" and "pre = [] \<or> \<not> is_word (last pre)" and "48 \<notin> set pre"
  shows "allAddressesInHref DEFAULT_ETH_RE (pre @ a) = Some [toLowerCase a]"
proof -
  have l: "length a = 42" by (rule VALID_ETH_RE_props(1) [OF assms(1)])
  have 1: "DEFAULT_ETH_RE (pre @ a) 0 = Some (a, length (pre @ a))"
    using DEFAULT_ETH_RE_after_prefix [OF assms, of 0] l by simp
  have "exec_loop DEFAULT_ETH_RE (pre @ a) (length (pre @ a)) [toLowerCase a]
        = Some [toLowerCase a]"
    by (subst exec_loop.simps) (simp only: DEFAULT_ETH_RE_at_end option.case)
  then have "exec_loop DEFAULT_ETH_RE (pre @ a) 0 [] = Some [toLowerCase a]"
    by (subst exec_loop.simps) (simp add: 1)
  moreover have "pre @ a \<noteq> []" using l by auto
  ultimately show ?thesis by (simp add: allAddressesInHref_def)
qed

lemma VALID_ETH_RE_nonempty: "VALID_ETH_RE c \<Longrightarrow> c \<noteq> []"
  by (auto simp: VALID_ETH_RE_def)

lemma matchHrefRules_find:
  "matchHrefRules rules href =
     (case find (rule_yields href) rules of
        None \<Rightarrow> None
      | Some r \<Rightarrow> map_option toLowerCase (captured_by r href))"
proof (induction rules)
  case Nil
  then show ?case by simp
next
  case (Cons r rules)
  show ?case
  proof (cases "captured_by r href")
    case None
    with Cons show ?thesis by (simp add: rule_yields_def)
  next
    case (Some c)
    with Cons show ?thesis
      by (auto simp: rule_yields_def dest: VALID_ETH_RE_nonempty)
  qed
qed

lemma matchHrefRules_truthy: "matchHrefRules rules href = Some a \<Longrightarrow> a \<noteq> []"
  by (induction rules)
     (auto simp: toLowerCase_ascii VALID_ETH_RE_ascii split: option.splits if_splits)

text \<open>
  C9 (amended). When at least one custom href rule is configured, \<open>matchHrefRules\<close>
  returns the capture, in lower case, of the first rule in order whose designated
  capture group is a syntactically valid full address, and \<open>null\<close> when there is no
  such rule. When it returns an address, that address is what the anchor contributes
  and the default full-address pattern is not consulted. When it returns \<open>null\<close>, the
  anchor is treated exactly as if no custom rule were configured: the default
  full-address pattern is applied to the href, then the abbreviated display text.
\<close>

theorem custom_rules_then_default:
  assumes "HREF_RULES \<noteq> []"
  shows "matchHrefRules HREF_RULES (anchor_href anchor) =
           (case find (rule_yields (anchor_href anchor)) HREF_RULES of
              None \<Rightarrow> None
            | Some r \<Rightarrow> map_option toLowerCase (captured_by r (anchor_href anchor)))
    \<and> (\<forall>a. matchHrefRules HREF_RULES (anchor_href anchor) = Some a \<longrightarrow>
           collect_anchor ETH_RE ABBR_RE HREF_RULES parseURL anchor (results, addressSet)
           = Some (results @ [(anchor, Some a)], set_add (Some a) addressSet))
    \<and> (matchHrefRules HREF_RULES (anchor_href anchor) = None \<longrightarrow>
           collect_anchor ETH_RE ABBR_RE HREF_RULES parseURL anchor (results, addressSet)
           = collect_anchor ETH_RE ABBR_RE [] parseURL anchor (results, addressSet))"
proof (intro conjI allI impI)
  show "matchHrefRules HREF_RULES (anchor_href anchor) =
           (case find (rule_yields (anchor_href anchor)) HREF_RULES of
              None \<Rightarrow> None
            | Some r \<Rightarrow> map_option toLowerCase (captured_by r (anchor_href anchor)))"
    by (rule matchHrefRules_find)
next
  fix a assume m: "matchHrefRules HREF_RULES (anchor_href anchor) = Some a"
  then have "a \<noteq> []" by (rule matchHrefRules_truthy)
  with m assms show "collect_anchor ETH_RE ABBR_RE HREF_RULES parseURL anchor (results, addressSet)
           = Some (results @ [(anchor, Some a)], set_add (Some a) addressSet)"
    by (simp add: collect_anchor_def truthy_def Let_def)
next
  assume "matchHrefRules HREF_RULES (anchor_href anchor) = None"
  then show "collect_anchor ETH_RE ABBR_RE HREF_RULES parseURL anchor (results, addressSet)
           = collect_anchor ETH_RE ABBR_RE [] parseURL anchor (results, addressSet)"
    by (simp add: collect_anchor_def truthy_def Let_def)
qed

lemma VALID_A: "VALID_ETH_RE addr_A" "toLowerCase addr_A = addr_A"
  using canonical_A_B(1) by (simp_all add: canonical_address_def)

lemma match_no_rule: "matchHrefRules [rule_no_match] href = None"
  by (simp add: rule_no_match_def captured_by_def)

lemma addresses_path_only: "allAddressesInHref DEFAULT_ETH_RE href_path_only = Some [addr_A]"
  unfolding href_path_only_def
  using allAddressesInHref_one [of addr_A "js ''https://x/address/''"]
  by (simp add: VALID_A) (simp add: js_def is_word_def)

lemma collect_path_only:
  "collect_anchor DEFAULT_ETH_RE DEFAULT_ABBR_RE HREF_RULES example_parser anchor_path_only
     ([], [])
   = (if truthy (matchHrefRules HREF_RULES href_path_only) \<and> HREF_RULES \<noteq> []
      then Some ([(anchor_path_only, matchHrefRules HREF_RULES href_path_only)],
                 [matchHrefRules HREF_RULES href_path_only])
      else Some ([(anchor_path_only, Some addr_A)], [Some addr_A]))"
  by (simp add: collect_anchor_def anchor_path_only_def addresses_path_only
      pickSubjectAddress_def set_add_def truthy_def Let_def)

lemma match_query_a:
  "matchHrefRules [rule_no_match, rule_query_a] href_two_params = Some addr_A"
proof -
  have "take 13 href_two_params = js ''https://x/?a=''"
    and "take 42 (drop 13 href_two_params) = addr_A"
    by (simp_all add: href_two_params_def addr_A_def js_def)
  then have "re_query_a href_two_params = Some [Some (take 55 href_two_params), Some addr_A]"
    using VALID_A(1) by (simp add: re_query_a_def)
  then show ?thesis
    using VALID_A VALID_ETH_RE_nonempty [OF VALID_A(1)]
    by (simp add: rule_no_match_def rule_query_a_def captured_by_def)
qed

text \<open>The theorem on two anchors: one whose href the second rule matches, one whose
  href no rule matches.\<close>

theorem custom_rules_then_default_witness:
  "[rule_no_match, rule_query_a] \<noteq> []
   \<and> matchHrefRules [rule_no_match, rule_query_a] (anchor_href anchor_two_params) = Some addr_A
   \<and> collect_anchor DEFAULT_ETH_RE DEFAULT_ABBR_RE [rule_no_match, rule_query_a] example_parser
       anchor_two_params ([], [])
     = Some ([(anchor_two_params, Some addr_A)], [Some addr_A])
   \<and> [rule_no_match] \<noteq> []
   \<and> matchHrefRules [rule_no_match] (anchor_href anchor_path_only) = None
   \<and> collect_anchor DEFAULT_ETH_RE DEFAULT_ABBR_RE [rule_no_match] example_parser
       anchor_path_only ([], [])
     = collect_anchor DEFAULT_ETH_RE DEFAULT_ABBR_RE [] example_parser anchor_path_only ([], [])"
proof -
  have 1: "matchHrefRules [rule_no_match, rule_query_a] (anchor_href anchor_two_params)
           = Some addr_A"
    by (simp add: anchor_two_params_def match_query_a del: matchHrefRules.simps)
  have 2: "matchHrefRules [rule_no_match] (anchor_href anchor_path_only) = None"
    by (rule match_no_rule)
  show ?thesis
    using custom_rules_then_default [of "[rule_no_match, rule_query_a]" anchor_two_params
        DEFAULT_ETH_RE DEFAULT_ABBR_RE example_parser "[]" "[]"]
      custom_rules_then_default [of "[rule_no_match]" anchor_path_only
        DEFAULT_ETH_RE DEFAULT_ABBR_RE example_parser "[]" "[]"]
      1 2
    by (simp add: set_add_def del: matchHrefRules.simps)
qed

text \<open>The claim as first stated fails: with one rule configured that matches
  nothing in the href, the result is not none; the default pattern finds the
  address A in the path and the anchor contributes it.\<close>

theorem custom_rules_only_counterexample:
  "[rule_no_match] \<noteq> []
   \<and> find (rule_yields (anchor_href anchor_path_only)) [rule_no_match] = None
   \<and> matchHrefRules [rule_no_match] (anchor_href anchor_path_only) = None
   \<and> collectEthereumLinks DEFAULT_ETH_RE DEFAULT_ABBR_RE [rule_no_match] example_parser
       [anchor_path_only] []
     = Some ([(anchor_path_only, Some addr_A)], [Some addr_A])"
proof -
  have f: "find (rule_yields (anchor_href anchor_path_only)) [rule_no_match] = None"
    by (simp add: rule_yields_def rule_no_match_def captured_by_def)
  have t: "\<not> truthy (matchHrefRules [rule_no_match] href_path_only)"
    by (simp only: match_no_rule truthy_def option.case not_False_eq_True)
  have c: "collect_anchor DEFAULT_ETH_RE DEFAULT_ABBR_RE [rule_no_match] example_parser
             anchor_path_only ([], [])
           = Some ([(anchor_path_only, Some addr_A)], [Some addr_A])"
    by (simp only: collect_path_only t simp_thms if_False)
  have "collectEthereumLinks DEFAULT_ETH_RE DEFAULT_ABBR_RE [rule_no_match] example_parser
       [anchor_path_only] []
     = Some ([(anchor_path_only, Some addr_A)], [Some addr_A])"
    by (simp only: collectEthereumLinks_def collect_loop.simps c option.case)
  with f match_no_rule [of "anchor_href anchor_path_only"] show ?thesis
    by simp
qed

section \<open>The batch orchestrator: chunks, transport calls, cache\<close>

subsection \<open>Chunking\<close>

lemma chunks_of_Nil [simp]: "chunks_of m [] = []"
  by (simp add: chunks_of.simps)

lemma chunks_of_Cons:
  "0 < m \<Longrightarrow> xs \<noteq> [] \<Longrightarrow> chunks_of m xs = take m xs # chunks_of m (drop m xs)"
  using chunks_of.simps [of m xs] by simp

lemma concat_chunks_of: "0 < m \<Longrightarrow> concat (chunks_of m xs) = xs"
proof (induction m xs rule: chunks_of.induct)
  case (1 m xs)
  show ?case
  proof (cases "xs = []")
    case True
    then show ?thesis by simp
  next
    case False
    have "concat (chunks_of m (drop m xs)) = drop m xs"
      using 1 False by simp
    then show ?thesis
      using 1(2) False by (simp add: chunks_of_Cons)
  qed
qed

lemma ceil_div_small: "0 < n \<Longrightarrow> n \<le> m \<Longrightarrow> (n + m - 1) div m = (1::nat)"
proof (rule div_nat_eqI)
  assume "0 < n" "n \<le> m"
  then show "m * 1 \<le> n + m - 1" by arith
  from \<open>0 < n\<close> \<open>n \<le> m\<close> show "n + m - 1 < m * Suc 1" by arith
qed

lemma ceil_div_step: "0 < m \<Longrightarrow> m < n \<Longrightarrow> (n + m - 1) div m = Suc ((n - m + m - 1) div m)"
proof -
  assume m: "0 < m" "m < n"
  have le: "m \<le> n + m - 1" using m by linarith
  have e: "n + m - 1 - m = n - m + m - 1" using m by linarith
  have "(n + m - 1) div m = Suc ((n + m - 1 - m) div m)"
    using m(1) le by (rule le_div_geq)
  then show ?thesis unfolding e .
qed

lemma length_chunks_of: "0 < m \<Longrightarrow> length (chunks_of m xs) = (length xs + m - 1) div m"
proof (induction m xs rule: chunks_of.induct)
  case (1 m xs)
  show ?case
  proof (cases "xs = []")
    case True
    with 1(2) show ?thesis by simp
  next
    case False
    then have pos: "0 < length xs" by simp
    have ih: "length (chunks_of m (drop m xs)) = (length (drop m xs) + m - 1) div m"
      using 1 False by simp
    have c: "length (chunks_of m xs) = Suc (length (chunks_of m (drop m xs)))"
      using 1(2) False by (simp add: chunks_of_Cons)
    show ?thesis
    proof (cases "length xs \<le> m")
      case True
      then have "(length xs + m - 1) div m = 1"
        using pos by (intro ceil_div_small)
      moreover from True have "chunks_of m (drop m xs) = []" by simp
      ultimately show ?thesis using c by simp
    next
      case gt: False
      then have "(length xs + m - 1) div m = Suc ((length xs - m + m - 1) div m)"
        using 1(2) by (intro ceil_div_step) simp_all
      then show ?thesis using c ih by simp
    qed
  qed
qed

lemma chunks_of_sizes: "c \<in> set (chunks_of m xs) \<Longrightarrow> 0 < length c \<and> length c \<le> m"
proof (induction m xs rule: chunks_of.induct)
  case (1 m xs)
  show ?case
  proof (cases "m = 0 \<or> xs = []")
    case True
    with 1(2) show ?thesis by (simp add: chunks_of.simps)
  next
    case False
    with 1(2) have "c = take m xs \<or> c \<in> set (chunks_of m (drop m xs))"
      by (simp add: chunks_of_Cons)
    then show ?thesis
    proof
      assume "c = take m xs"
      with False show ?thesis by simp
    next
      assume "c \<in> set (chunks_of m (drop m xs))"
      with 1(1) False show ?thesis by simp
    qed
  qed
qed

lemma slice_take_drop:
  "i \<le> length xs \<Longrightarrow> slice xs (int i) (int i + int m) = take m (drop i xs)"
  by (auto simp: slice_def Let_def min_def)

lemma chunk_loop_chunks_of:
  assumes "0 < m"
  shows "i \<le> length u \<Longrightarrow> length cs + (length u - i) \<le> MAX_ARRAY_LENGTH \<Longrightarrow>
         chunk_loop (int m) u (int i) cs = Inr (cs @ chunks_of m (drop i u))"
proof (induction "length u - i" arbitrary: i cs rule: less_induct)
  case less
  show ?case
  proof (cases "i < length u")
    case False
    with less.prems show ?thesis
      by (subst chunk_loop.simps) simp
  next
    case True
    have p: "push cs (slice u (int i) (int i + int m)) = Inr (cs @ [take m (drop i u)])"
      using less.prems True by (simp add: push_def slice_take_drop)
    show ?thesis
    proof (cases "i + m \<le> length u")
      case le: True
      have "chunk_loop (int m) u (int (i + m)) (cs @ [take m (drop i u)])
            = Inr ((cs @ [take m (drop i u)]) @ chunks_of m (drop (i + m) u))"
        using less.prems le assms True by (intro less.hyps) simp_all
      moreover have "chunks_of m (drop i u) = take m (drop i u) # chunks_of m (drop (i + m) u)"
        using True assms by (simp add: chunks_of_Cons add.commute)
      ultimately show ?thesis
        using True p by (subst chunk_loop.simps) (simp add: add.commute)
    next
      case gt: False
      have e: "chunk_loop (int m) u (int i + int m) (cs @ [take m (drop i u)])
               = Inr (cs @ [take m (drop i u)])"
        using gt by (subst chunk_loop.simps) simp
      have "chunks_of m (drop i u) = [take m (drop i u)]"
        using True assms gt by (simp add: chunks_of_Cons)
      with e True p show ?thesis
        by (subst chunk_loop.simps) simp
    qed
  qed
qed

lemma chunk_loop_start:
  assumes "1 \<le> maxBatch" and "length u \<le> MAX_ARRAY_LENGTH"
  shows "chunk_loop maxBatch u 0 [] = Inr (chunks_of (nat maxBatch) u)"
  using chunk_loop_chunks_of [of "nat maxBatch" 0 u "[]"] assms by simp

subsection \<open>One transport call\<close>

text \<open>The state after the transport call for a chunk has been issued and answered.\<close>

lemma resolveViaRPC_cases:
  assumes "resolveViaRPC net w c = (r, w1)"
  shows "(\<exists>e. encodeMulticall c = Inl e \<and> r = Inl e \<and> w1 = w)
       \<or> (\<exists>cd. encodeMulticall c = Inr cd
              \<and> w1 = w\<lparr>calls := calls w @ [(clock w, c, cd)],
                       clock := clock w + snd (net (length (calls w)) cd)\<rparr>
              \<and> r = (case fst (net (length (calls w)) cd) of
                        Rejects \<Rightarrow> Inl NetworkError
                      | No_result \<Rightarrow> Inr Map.empty
                      | Result_not_string \<Rightarrow> Inl TypeError
                      | Result hex \<Rightarrow>
                          (case decodeAggregate3 (Some hex) of
                             Inl e \<Rightarrow> Inl e
                           | Inr names \<Rightarrow> Inr (set_names c names))))"
proof (cases "encodeMulticall c")
  case (Inl e)
  with assms show ?thesis by (simp add: resolveViaRPC_def)
next
  case (Inr cd)
  obtain res d where n: "net (length (calls w)) cd = (res, d)"
    by (cases "net (length (calls w)) cd")
  from assms Inr n show ?thesis
    by (cases res) (auto simp: resolveViaRPC_def Let_def split: sum.splits)
qed

lemma resolveViaRPC_frame:
  assumes "resolveViaRPC net w c = (r, w1)"
  shows "config w1 = config w" and "local w1 = local w" and "lastRpcTime w1 = lastRpcTime w"
  using resolveViaRPC_cases [OF assms] by auto

lemma resolveViaRPC_calls:
  assumes "resolveViaRPC net w c = (r, w1)"
  shows "calls w1 = calls w \<or> (\<exists>cd. calls w1 = calls w @ [(clock w, c, cd)])"
    and "(\<exists>v. r = Inr v) \<Longrightarrow> \<exists>cd. calls w1 = calls w @ [(clock w, c, cd)]"
  using resolveViaRPC_cases [OF assms] by auto

lemma resolveViaRPC_clock:
  assumes "resolveViaRPC net w c = (r, w1)" and "\<forall>k cd. 0 \<le> snd (net k cd)"
  shows "clock w \<le> clock w1"
  using resolveViaRPC_cases [OF assms(1)] assms(2) by auto

lemma set_names_fold_dom:
  "fold (\<lambda>i results.
           if i < length names \<and> truthy (names ! i)
           then results(toLowerCase (addresses ! i) := names ! i)
           else results) is m k = Some v
   \<Longrightarrow> m k = Some v \<or> (\<exists>i\<in>set is. k = toLowerCase (addresses ! i))"
proof (induction "is" arbitrary: m)
  case Nil
  then show ?case by simp
next
  case (Cons i "is")
  from Cons.IH [OF Cons.prems [simplified]] show ?case
    by (auto split: if_splits)
qed

lemma set_names_dom:
  assumes "set_names addresses names k = Some v"
  shows "k \<in> toLowerCase ` set addresses"
proof -
  from set_names_fold_dom [OF assms [unfolded set_names_def]]
  obtain i where "i < length addresses" "k = toLowerCase (addresses ! i)" by auto
  then show ?thesis by auto
qed

lemma resolveViaRPC_dom:
  assumes "resolveViaRPC net w c = (Inr fresh, w1)" and "fresh k = Some v"
  shows "k \<in> toLowerCase ` set c"
proof -
  from resolveViaRPC_cases [OF assms(1)] obtain cd where
    r: "Inr fresh = (case fst (net (length (calls w)) cd) of
                        Rejects \<Rightarrow> Inl NetworkError
                      | No_result \<Rightarrow> Inr Map.empty
                      | Result_not_string \<Rightarrow> Inl TypeError
                      | Result hex \<Rightarrow>
                          (case decodeAggregate3 (Some hex) of
                             Inl e \<Rightarrow> Inl e
                           | Inr names \<Rightarrow> Inr (set_names c names)))"
    by auto
  then have "fresh = Map.empty \<or> (\<exists>names. fresh = set_names c names)"
    by (auto split: reply.splits sum.splits)
  with assms(2) show ?thesis by (auto dest: set_names_dom)
qed

subsection \<open>The loop over the chunks\<close>

lemma call_fields [simp]:
  "call_chunk (t, c, cd) = c" "call_time (t, c, cd) = t" "call_data (t, c, cd) = cd"
  by (simp_all add: call_chunk_def call_time_def call_data_def)

lemma resolve_chunks_step:
  "resolve_chunks net enabled (chunk # chunks) (results, w) =
     (case resolveViaRPC net w chunk of
        (Inl e, w1) \<Rightarrow> (Inl e, w1)
      | (Inr fresh, w1) \<Rightarrow>
          resolve_chunks net enabled chunks
            (results ++ fresh,
             if enabled then w1\<lparr>local := local w1 ++ store_chunk chunk fresh (clock w1)\<rparr>
             else w1))"
  by (simp add: Let_def split: prod.splits sum.splits)

lemma resolve_chunks_frame:
  "resolve_chunks net enabled chunks (results, w) = (r, w') \<Longrightarrow>
   config w' = config w \<and> lastRpcTime w' = lastRpcTime w \<and> (\<not> enabled \<longrightarrow> local w' = local w)"
proof (induction chunks arbitrary: results w)
  case Nil
  then show ?case by simp
next
  case (Cons chunk chunks)
  obtain r1 w1 where v: "resolveViaRPC net w chunk = (r1, w1)"
    by (cases "resolveViaRPC net w chunk")
  note f = resolveViaRPC_frame [OF v]
  show ?case
  proof (cases r1)
    case (Inl e)
    with Cons.prems v f show ?thesis by (simp add: resolve_chunks_step)
  next
    case (Inr fresh)
    with Cons.prems v have
      "resolve_chunks net enabled chunks
         (results ++ fresh,
          if enabled then w1\<lparr>local := local w1 ++ store_chunk chunk fresh (clock w1)\<rparr> else w1)
       = (r, w')"
      by (simp add: resolve_chunks_step)
    from Cons.IH [OF this] f show ?thesis by (simp split: if_splits)
  qed
qed

text \<open>The transport calls of the loop are for the chunks, in order, one each, up to
  the chunk whose call throws.\<close>

lemma resolve_chunks_calls:
  "resolve_chunks net enabled chunks (results, w) = (r, w') \<Longrightarrow>
   \<exists>new j. calls w' = calls w @ new \<and> j \<le> length chunks \<and> map call_chunk new = take j chunks
     \<and> ((\<exists>v. r = Inr v) \<longrightarrow> j = length chunks)"
proof (induction chunks arbitrary: results w)
  case Nil
  then show ?case by auto
next
  case (Cons chunk chunks)
  obtain r1 w1 where v: "resolveViaRPC net w chunk = (r1, w1)"
    by (cases "resolveViaRPC net w chunk")
  show ?case
  proof (cases r1)
    case (Inl e)
    with Cons.prems v have r: "r = Inl e" "w' = w1" by (simp_all add: resolve_chunks_step)
    from resolveViaRPC_calls(1) [OF v] show ?thesis
    proof
      assume "calls w1 = calls w"
      with r show ?thesis by (intro exI [of _ "[]"] exI [of _ 0]) simp
    next
      assume "\<exists>cd. calls w1 = calls w @ [(clock w, chunk, cd)]"
      then obtain cd where "calls w1 = calls w @ [(clock w, chunk, cd)]" ..
      with r show ?thesis
        by (intro exI [of _ "[(clock w, chunk, cd)]"] exI [of _ 1]) simp
    qed
  next
    case (Inr fresh)
    define w2 where "w2 = (if enabled
        then w1\<lparr>local := local w1 ++ store_chunk chunk fresh (clock w1)\<rparr> else w1)"
    from Cons.prems v Inr have "resolve_chunks net enabled chunks (results ++ fresh, w2) = (r, w')"
      by (simp add: resolve_chunks_step w2_def)
    from Cons.IH [OF this] obtain new j where
      ih: "calls w' = calls w2 @ new" "j \<le> length chunks" "map call_chunk new = take j chunks"
          "(\<exists>v. r = Inr v) \<longrightarrow> j = length chunks"
      by blast
    from resolveViaRPC_calls(2) [OF v] Inr obtain cd where
      c1: "calls w1 = calls w @ [(clock w, chunk, cd)]" by auto
    have "calls w2 = calls w1" by (simp add: w2_def)
    with ih c1 show ?thesis
      by (intro exI [of _ "(clock w, chunk, cd) # new"] exI [of _ "Suc j"])
         simp
  qed
qed

lemma resolve_chunks_clock:
  assumes "\<forall>k cd. 0 \<le> snd (net k cd)"
  shows "resolve_chunks net enabled chunks (results, w) = (r, w') \<Longrightarrow>
         clock w \<le> clock w' \<and> (\<forall>c\<in>set (new_calls w w'). clock w \<le> call_time c)"
proof (induction chunks arbitrary: results w)
  case Nil
  then show ?case by (simp add: new_calls_def)
next
  case (Cons chunk chunks)
  obtain r1 w1 where v: "resolveViaRPC net w chunk = (r1, w1)"
    by (cases "resolveViaRPC net w chunk")
  have ck: "clock w \<le> clock w1" by (rule resolveViaRPC_clock [OF v assms])
  show ?case
  proof (cases r1)
    case (Inl e)
    with Cons.prems v have r: "w' = w1" by (simp_all add: resolve_chunks_step)
    from resolveViaRPC_calls(1) [OF v] r ck show ?thesis
      by (auto simp: new_calls_def)
  next
    case (Inr fresh)
    define w2 where "w2 = (if enabled
        then w1\<lparr>local := local w1 ++ store_chunk chunk fresh (clock w1)\<rparr> else w1)"
    from Cons.prems v Inr have "resolve_chunks net enabled chunks (results ++ fresh, w2) = (r, w')"
      by (simp add: resolve_chunks_step w2_def)
    from Cons.IH [OF this] have
      ih: "clock w2 \<le> clock w'" "\<forall>c\<in>set (new_calls w2 w'). clock w2 \<le> call_time c"
      by simp_all
    from resolveViaRPC_calls(2) [OF v] Inr obtain cd where
      c1: "calls w1 = calls w @ [(clock w, chunk, cd)]" by auto
    have w2: "calls w2 = calls w1" "clock w2 = clock w1" by (simp_all add: w2_def)
    from resolve_chunks_calls [OF \<open>resolve_chunks net enabled chunks (results ++ fresh, w2) = (r, w')\<close>]
    obtain new where n: "calls w' = calls w2 @ new" by blast
    have "new_calls w w' = (clock w, chunk, cd) # new_calls w2 w'"
      using n c1 w2 by (simp add: new_calls_def)
    with ih ck w2 show ?thesis by auto
  qed
qed

text \<open>The transport calls of the loop are issued back to back, the first when the
  loop starts.\<close>

lemma resolve_chunks_back_to_back:
  "resolve_chunks net enabled chunks (results, w) = (r, w') \<Longrightarrow>
   back_to_back net (length (calls w)) (clock w) (new_calls w w')"
proof (induction chunks arbitrary: results w)
  case Nil
  then show ?case by (simp add: new_calls_def)
next
  case (Cons chunk chunks)
  obtain r1 w1 where v: "resolveViaRPC net w chunk = (r1, w1)"
    by (cases "resolveViaRPC net w chunk")
  from resolveViaRPC_cases [OF v] show ?case
  proof
    assume "\<exists>e. encodeMulticall chunk = Inl e \<and> r1 = Inl e \<and> w1 = w"
    with Cons.prems v have "w' = w" by (auto simp: resolve_chunks_step)
    then show ?thesis by (simp add: new_calls_def)
  next
    assume "\<exists>cd. encodeMulticall chunk = Inr cd
              \<and> w1 = w\<lparr>calls := calls w @ [(clock w, chunk, cd)],
                       clock := clock w + snd (net (length (calls w)) cd)\<rparr>
              \<and> r1 = (case fst (net (length (calls w)) cd) of
                        Rejects \<Rightarrow> Inl NetworkError
                      | No_result \<Rightarrow> Inr Map.empty
                      | Result_not_string \<Rightarrow> Inl TypeError
                      | Result hex \<Rightarrow>
                          (case decodeAggregate3 (Some hex) of
                             Inl e \<Rightarrow> Inl e
                           | Inr names \<Rightarrow> Inr (set_names chunk names)))"
    then obtain cd where
      w1: "w1 = w\<lparr>calls := calls w @ [(clock w, chunk, cd)],
                  clock := clock w + snd (net (length (calls w)) cd)\<rparr>"
      by blast
    show ?thesis
    proof (cases r1)
      case (Inl e)
      with Cons.prems v have "w' = w1" by (simp add: resolve_chunks_step)
      then show ?thesis by (simp add: new_calls_def w1)
    next
      case (Inr fresh)
      define w2 where "w2 = (if enabled
          then w1\<lparr>local := local w1 ++ store_chunk chunk fresh (clock w1)\<rparr> else w1)"
      from Cons.prems v Inr
      have rest: "resolve_chunks net enabled chunks (results ++ fresh, w2) = (r, w')"
        by (simp add: resolve_chunks_step w2_def)
      have w2: "calls w2 = calls w @ [(clock w, chunk, cd)]"
        "clock w2 = clock w + snd (net (length (calls w)) cd)"
        by (simp_all add: w2_def w1)
      from resolve_chunks_calls [OF rest] obtain new where n: "calls w' = calls w2 @ new"
        by blast
      have nc: "new_calls w w' = (clock w, chunk, cd) # new_calls w2 w'"
        using n w2 by (simp add: new_calls_def)
      from Cons.IH [OF rest] show ?thesis
        by (simp add: nc w2)
    qed
  qed
qed

subsection \<open>The cache read\<close>

lemma cache_read_fold_uncached:
  "snd (fold (cache_read_step cached now ttl) addresses (res, unc))
   = unc @ filter (\<lambda>addr. \<not> fresh_entry cached now ttl addr) addresses"
  by (induction addresses arbitrary: res unc)
     (auto simp: cache_read_step_def fresh_entry_def split: option.splits)

lemma snd_cache_read:
  "snd (cache_read cached now ttl addresses)
   = filter (\<lambda>addr. \<not> fresh_entry cached now ttl addr) addresses"
  unfolding cache_read_def by (simp add: cache_read_fold_uncached)

text \<open>\<open>resolveAddresses\<close> in terms of the uncached addresses.\<close>

lemma resolveAddresses_unfold:
  "resolveAddresses net w addresses =
     (let results = (if cacheEnabled (config w)
                     then fst (cache_read (local w) (clock w)
                                 (cacheTtlMinutes (config w) * 60 * 1000) addresses)
                     else Map.empty);
          uncached = uncached_at w (clock w) addresses
      in if uncached \<noteq> []
         then (case chunk_loop (maxBatchSize (config w)) uncached 0 [] of
                 Inl e \<Rightarrow> (Inl e, w)
               | Inr chunks \<Rightarrow> resolve_chunks net (cacheEnabled (config w)) chunks (results, w))
         else (Inr results, w))"
proof (cases "cacheEnabled (config w)")
  case True
  obtain r u where cr: "cache_read (local w) (clock w)
                          (cacheTtlMinutes (config w) * 60 * 1000) addresses = (r, u)"
    by (cases "cache_read (local w) (clock w) (cacheTtlMinutes (config w) * 60 * 1000) addresses")
  then have "u = uncached_at w (clock w) addresses"
    using snd_cache_read [of "local w" "clock w" "cacheTtlMinutes (config w) * 60 * 1000" addresses]
      True by (simp add: uncached_at_def)
  with True cr show ?thesis
    by (simp add: resolveAddresses_def Let_def)
next
  case False
  then show ?thesis
    by (simp add: resolveAddresses_def Let_def uncached_at_def)
qed

lemma length_uncached_at: "length (uncached_at w now addresses) \<le> length addresses"
  by (simp add: uncached_at_def)

text \<open>With a batch size of at least 1, \<open>resolveAddresses\<close> is the loop over the chunks
  of the uncached addresses.\<close>

lemma resolveAddresses_chunks:
  assumes "1 \<le> maxBatchSize (config w)" and "length addresses \<le> MAX_ARRAY_LENGTH"
  shows "resolveAddresses net w addresses =
     resolve_chunks net (cacheEnabled (config w))
       (chunks_of (nat (maxBatchSize (config w))) (uncached_at w (clock w) addresses))
       (if cacheEnabled (config w)
        then fst (cache_read (local w) (clock w) (cacheTtlMinutes (config w) * 60 * 1000) addresses)
        else Map.empty, w)"
proof -
  have "length (uncached_at w (clock w) addresses) \<le> MAX_ARRAY_LENGTH"
    using length_uncached_at [of w "clock w" addresses] assms(2) by simp
  then have "chunk_loop (maxBatchSize (config w)) (uncached_at w (clock w) addresses) 0 []
             = Inr (chunks_of (nat (maxBatchSize (config w))) (uncached_at w (clock w) addresses))"
    using assms(1) by (intro chunk_loop_start)
  then show ?thesis
    by (cases "uncached_at w (clock w) addresses = []")
       (simp_all add: resolveAddresses_unfold Let_def)
qed

subsection \<open>The cooldown\<close>

lemma cooled_fields:
  "clock (cooled w) = max (clock w) (lastRpcTime w + rpcCooldownMs (config w))"
  "lastRpcTime (cooled w) = max (clock w) (lastRpcTime w + rpcCooldownMs (config w))"
  "config (cooled w) = config w" "local (cooled w) = local w" "calls (cooled w) = calls w"
  by (auto simp: cooled_def waitForCooldown_def Let_def)

lemma resolveWithCooldown_cooled:
  "resolveWithCooldown net w addresses = resolveAddresses net (cooled w) addresses"
  by (simp add: resolveWithCooldown_def cooled_def Let_def)

lemma uncached_at_cooled: "uncached_at (cooled w) now addresses = uncached_at w now addresses"
  by (simp add: uncached_at_def cooled_fields)

subsection \<open>One transport call per chunk, one cooldown per invocation\<close>

lemma resolve_calls_and_times:
  assumes m: "1 \<le> maxBatchSize (config w)" and len: "length addresses \<le> MAX_ARRAY_LENGTH"
    and dur: "\<forall>k cd. 0 \<le> snd (net k cd)"
    and res: "resolveWithCooldown net w addresses = (r, w')"
  defines "start \<equiv> max (clock w) (lastRpcTime w + rpcCooldownMs (config w))"
  defines "chunks \<equiv> chunks_of (nat (maxBatchSize (config w))) (uncached_at w start addresses)"
  shows "\<exists>j\<le>length chunks. map call_chunk (new_calls w w') = take j chunks"
    and "(\<exists>v. r = Inr v) \<Longrightarrow> map call_chunk (new_calls w w') = chunks"
    and "lastRpcTime w' = start"
    and "\<forall>c\<in>set (new_calls w w'). start \<le> call_time c"
    and "back_to_back net (length (calls w)) start (new_calls w w')"
proof -
  have "resolveAddresses net (cooled w) addresses = (r, w')"
    using res by (simp add: resolveWithCooldown_cooled)
  moreover have "1 \<le> maxBatchSize (config (cooled w))"
    using m by (simp add: cooled_fields)
  ultimately have "\<exists>results0. resolve_chunks net (cacheEnabled (config w))
       (chunks_of (nat (maxBatchSize (config (cooled w))))
          (uncached_at (cooled w) (clock (cooled w)) addresses)) (results0, cooled w) = (r, w')"
    using resolveAddresses_chunks [of "cooled w" addresses net] len
    by (simp only: cooled_fields) blast
  then obtain results0 where
    rc: "resolve_chunks net (cacheEnabled (config w)) chunks (results0, cooled w) = (r, w')"
    by (auto simp: cooled_fields uncached_at_cooled chunks_def start_def)
  from resolve_chunks_calls [OF rc] obtain new j where
    c: "calls w' = calls (cooled w) @ new" "j \<le> length chunks" "map call_chunk new = take j chunks"
       "(\<exists>v. r = Inr v) \<longrightarrow> j = length chunks"
    by blast
  then have nc: "new_calls w w' = new" "new_calls (cooled w) w' = new"
    by (simp_all add: new_calls_def cooled_fields)
  from c nc show "\<exists>j\<le>length chunks. map call_chunk (new_calls w w') = take j chunks"
    by auto
  from c nc show "map call_chunk (new_calls w w') = chunks" if "\<exists>v. r = Inr v"
    using that by simp
  from resolve_chunks_frame [OF rc] show "lastRpcTime w' = start"
    by (simp add: cooled_fields start_def)
  from resolve_chunks_clock [OF dur rc] nc
  show "\<forall>c\<in>set (new_calls w w'). start \<le> call_time c"
    by (simp add: cooled_fields start_def)
  from resolve_chunks_back_to_back [OF rc] nc
  show "back_to_back net (length (calls w)) start (new_calls w w')"
    by (simp add: cooled_fields start_def)
qed

text \<open>
  C7 (amended). For every resolve invocation with a configured maximum batch size \<open>m\<close>
  of at least 1 and \<open>k\<close> addresses uncached when the cache is read, the uncached
  addresses are partitioned in order into exactly \<open>ceil (k / m)\<close> chunks of at least one
  and at most \<open>m\<close> addresses; the transport calls of the invocation are for these
  chunks in order, one call each, up to the first call that throws, and for all of
  them when the invocation returns. The cooldown is waited for once per invocation,
  before its first transport call, and not between its chunks: \<open>lastRpcTime\<close> is set to
  the time at which the cooldown has elapsed, the first call is issued at that time, and
  each later call at the moment at which the call before it has returned.
\<close>

theorem resolve_one_call_per_chunk:
  assumes "1 \<le> maxBatchSize (config w)" and "length addresses \<le> MAX_ARRAY_LENGTH"
    and "\<forall>k cd. 0 \<le> snd (net k cd)"
    and "resolveWithCooldown net w addresses = (r, w')"
  shows "let m = nat (maxBatchSize (config w));
             start = max (clock w) (lastRpcTime w + rpcCooldownMs (config w));
             uncached = uncached_at w start addresses;
             chunks = chunks_of m uncached
         in concat chunks = uncached
            \<and> length chunks = (length uncached + m - 1) div m
            \<and> (\<forall>c\<in>set chunks. 0 < length c \<and> length c \<le> m)
            \<and> (\<exists>j\<le>length chunks. map call_chunk (new_calls w w') = take j chunks)
            \<and> ((\<exists>names. r = Inr names) \<longrightarrow> map call_chunk (new_calls w w') = chunks)
            \<and> lastRpcTime w' = start
            \<and> (\<forall>c\<in>set (new_calls w w'). start \<le> call_time c)
            \<and> back_to_back net (length (calls w)) start (new_calls w w')"
proof -
  have m: "0 < nat (maxBatchSize (config w))" using assms(1) by simp
  show ?thesis
    unfolding Let_def
    using concat_chunks_of [OF m] length_chunks_of [OF m] chunks_of_sizes
      resolve_calls_and_times [OF assms]
    by (intro conjI) blast+
qed


text \<open>A network that always answers with a JSON-RPC error: every call returns, with
  no name.\<close>

lemma resolveViaRPC_no_result:
  assumes "encodeMulticall c = Inr cd" and "fst (net (length (calls w)) cd) = No_result"
  shows "resolveViaRPC net w c =
           (Inr Map.empty, w\<lparr>calls := calls w @ [(clock w, c, cd)],
                               clock := clock w + snd (net (length (calls w)) cd)\<rparr>)"
  using assms by (cases "net (length (calls w)) cd") (simp add: resolveViaRPC_def)

lemma resolve_chunks_no_result:
  assumes "\<forall>k cd. fst (net k cd) = No_result"
  shows "\<forall>c\<in>set chunks. list_all VALID_ADDR c \<and> 7 * length c + 2 \<le> MAX_ARRAY_LENGTH \<Longrightarrow>
         \<exists>w'. resolve_chunks net enabled chunks (results, w) = (Inr results, w')"
proof (induction chunks arbitrary: w)
  case Nil
  then show ?case by simp
next
  case (Cons c chunks)
  then have "encodeMulticall c = Inr (multicall_layout c)"
    by (intro encodeMulticall_eq) simp_all
  then have "resolveViaRPC net w c =
           (Inr Map.empty, w\<lparr>calls := calls w @ [(clock w, c, multicall_layout c)],
                               clock := clock w + snd (net (length (calls w)) (multicall_layout c))\<rparr>)"
    using assms by (intro resolveViaRPC_no_result) simp_all
  then show ?case
    using Cons.IH Cons.prems by (simp add: resolve_chunks_step)
qed

lemma VALID_ADDR_A_B: "VALID_ADDR addr_A" "VALID_ADDR addr_B"
  by (simp_all add: VALID_ADDR_def addr_A_def addr_B_def js_def is_hex_def)

text \<open>The theorem on 120 uncached addresses with a batch size of 50, when the last
  invocation was 500 ms ago and the cooldown is 2000 ms: 1500 ms are waited for, then
  three transport calls are issued at 6500, 6600 and 6700, each taking 100 ms.\<close>

theorem resolve_one_call_per_chunk_witness:
  "1 \<le> maxBatchSize (config (world_recent (config_of False 50)))
   \<and> length (replicate 120 addr_A) \<le> MAX_ARRAY_LENGTH
   \<and> (\<forall>k cd. 0 \<le> snd (net_no_result k cd))
   \<and> clock (world_recent (config_of False 50)) = 5000
   \<and> lastRpcTime (world_recent (config_of False 50)) = 4500
   \<and> rpcCooldownMs (config (world_recent (config_of False 50))) = 2000
   \<and> (\<exists>names w'.
         resolveWithCooldown net_no_result (world_recent (config_of False 50))
           (replicate 120 addr_A)
           = (Inr names, w')
         \<and> length (new_calls (world_recent (config_of False 50)) w') = 3
         \<and> (\<forall>c\<in>set (new_calls (world_recent (config_of False 50)) w').
               length (call_chunk c) \<le> 50)
         \<and> concat (map call_chunk (new_calls (world_recent (config_of False 50)) w'))
             = replicate 120 addr_A
         \<and> lastRpcTime w' = 6500
         \<and> map call_time (new_calls (world_recent (config_of False 50)) w')
             = [6500, 6600, 6700])"
proof -
  define W where "W = world_recent (config_of False 50)"
  have f: "maxBatchSize (config W) = 50" "cacheEnabled (config W) = False"
    "clock W = 5000" "lastRpcTime W = 4500" "rpcCooldownMs (config W) = 2000" "calls W = []"
    by (simp_all add: W_def world_recent_def world_of_def config_of_def)
  have 1: "1 \<le> maxBatchSize (config W)" by (simp add: f)
  have 2: "length (replicate 120 addr_A) \<le> MAX_ARRAY_LENGTH"
    by (simp add: MAX_ARRAY_LENGTH_def)
  have 3: "\<forall>k cd. 0 \<le> snd (net_no_result k cd)" by (simp add: net_no_result_def)
  have u: "uncached_at W 6500 (replicate 120 addr_A) = replicate 120 addr_A"
    by (simp add: uncached_at_def f)
  have "\<forall>c\<in>set (chunks_of 50 (replicate 120 addr_A)).
          list_all VALID_ADDR c \<and> 7 * length c + 2 \<le> MAX_ARRAY_LENGTH"
  proof
    fix c assume c: "c \<in> set (chunks_of 50 (replicate 120 addr_A))"
    from chunks_of_sizes [OF c] have "7 * length c + 2 \<le> MAX_ARRAY_LENGTH"
      by (simp add: MAX_ARRAY_LENGTH_def)
    moreover have "set c \<subseteq> set (concat (chunks_of 50 (replicate 120 addr_A)))"
      using c by auto
    then have "set c \<subseteq> {addr_A}" by (simp add: concat_chunks_of)
    then have "list_all VALID_ADDR c" using VALID_ADDR_A_B(1) by (auto simp: list_all_iff)
    ultimately show "list_all VALID_ADDR c \<and> 7 * length c + 2 \<le> MAX_ARRAY_LENGTH" by simp
  qed
  then obtain w' where
    "resolve_chunks net_no_result False (chunks_of 50 (replicate 120 addr_A))
       (Map.empty, cooled W) = (Inr Map.empty, w')"
    using resolve_chunks_no_result [of net_no_result "chunks_of 50 (replicate 120 addr_A)" False
        Map.empty "cooled W"]
    by (auto simp: net_no_result_def)
  then have r: "resolveWithCooldown net_no_result W (replicate 120 addr_A) = (Inr Map.empty, w')"
    using resolveAddresses_chunks [of "cooled W" "replicate 120 addr_A" net_no_result] 2
    by (simp add: resolveWithCooldown_cooled cooled_fields f uncached_at_cooled u)
  define chunks where "chunks = chunks_of 50 (replicate 120 addr_A)"
  from resolve_one_call_per_chunk [OF 1 2 3 r]
  have t: "concat chunks = replicate 120 addr_A" "length chunks = 3"
    "\<forall>c\<in>set chunks. 0 < length c \<and> length c \<le> 50"
    "map call_chunk (new_calls W w') = chunks" "lastRpcTime w' = 6500"
    "back_to_back net_no_result 0 6500 (new_calls W w')"
    by (simp_all add: Let_def f u chunks_def)
  have a: "length (new_calls W w') = 3"
    using t(2,4) by (metis length_map)
  have b: "\<forall>c\<in>set (new_calls W w'). length (call_chunk c) \<le> 50"
  proof
    fix c assume "c \<in> set (new_calls W w')"
    then have "call_chunk c \<in> set (map call_chunk (new_calls W w'))" by simp
    with t(3,4) show "length (call_chunk c) \<le> 50" by simp
  qed
  have c: "concat (map call_chunk (new_calls W w')) = replicate 120 addr_A"
    using t(1,4) by simp
  from a obtain c1 c2 c3 where n: "new_calls W w' = [c1, c2, c3]"
    by (auto simp: length_Suc_conv numeral_3_eq_3)
  have d: "map call_time (new_calls W w') = [6500, 6600, 6700]"
    using t(6) unfolding n by (simp add: net_no_result_def)
  show ?thesis
    unfolding W_def [symmetric]
    by (intro conjI exI [of _ Map.empty] exI [of _ w'] 1 2 3 f(3,4,5) r a b c d t(5))
qed


lemma encodeMulticall_single:
  "VALID_ADDR a \<Longrightarrow> encodeMulticall [a] = Inr (multicall_layout [a])"
  by (rule encodeMulticall_eq) (simp_all add: MAX_ARRAY_LENGTH_def)

lemma chunks_of_1_two: "chunks_of (Suc 0) [a, b] = [[a], [b]]"
  by (simp add: chunks_of_Cons)

lemma uncached_disabled: "\<not> cacheEnabled (config w) \<Longrightarrow> uncached_at w now addresses = addresses"
  by (simp add: uncached_at_def)

lemma two_chunks_no_result:
  "resolveWithCooldown net_no_result (world_of (config_of False 1)) [addr_A, addr_B]
   = (Inr Map.empty,
      \<lparr>config = config_of False 1, local = Map.empty, clock = 5200, lastRpcTime = 5000,
       calls = [(5000, [addr_A], multicall_layout [addr_A]),
                (5100, [addr_B], multicall_layout [addr_B])]\<rparr>)"
proof -
  define W where "W = cooled (world_of (config_of False 1))"
  have W: "W = \<lparr>config = config_of False 1, local = Map.empty, clock = 5000,
                lastRpcTime = 5000, calls = []\<rparr>"
    by (simp add: W_def cooled_def waitForCooldown_def world_of_def config_of_def Let_def)
  have f: "maxBatchSize (config W) = 1" "\<not> cacheEnabled (config W)"
    by (simp_all add: W config_of_def)
  have "resolveAddresses net_no_result W [addr_A, addr_B]
        = resolve_chunks net_no_result False [[addr_A], [addr_B]] (Map.empty, W)"
    using resolveAddresses_chunks [of W "[addr_A, addr_B]" net_no_result] f
    by (simp add: MAX_ARRAY_LENGTH_def uncached_disabled chunks_of_1_two)
  also have "\<dots> = (Inr Map.empty,
      \<lparr>config = config_of False 1, local = Map.empty, clock = 5200, lastRpcTime = 5000,
       calls = [(5000, [addr_A], multicall_layout [addr_A]),
                (5100, [addr_B], multicall_layout [addr_B])]\<rparr>)"
    by (simp add: resolve_chunks_step resolveViaRPC_no_result encodeMulticall_single
        VALID_ADDR_A_B net_no_result_def W)
  finally show ?thesis
    by (simp add: resolveWithCooldown_cooled W_def)
qed

text \<open>The claim as first stated fails: with a cooldown of 2000 ms, two chunks and a
  network that answers after 100 ms, the second chunk's call is issued at 5100, 100 ms
  after the first.\<close>

theorem cooldown_between_chunks_counterexample:
  "fst (resolveWithCooldown net_no_result (world_of (config_of False 1)) [addr_A, addr_B])
     = Inr Map.empty
   \<and> map call_chunk
        (calls (snd (resolveWithCooldown net_no_result (world_of (config_of False 1))
                       [addr_A, addr_B])))
     = [[addr_A], [addr_B]]
   \<and> map call_time
        (calls (snd (resolveWithCooldown net_no_result (world_of (config_of False 1))
                       [addr_A, addr_B])))
     = [5000, 5100]
   \<and> rpcCooldownMs (config (world_of (config_of False 1))) = 2000"
  by (simp add: two_chunks_no_result) (simp add: world_of_def config_of_def)

subsection \<open>Cache keys and cache writes\<close>

lemma cacheKey_lower [simp]: "drop 4 (cacheKey x) = toLowerCase x"
  by (simp add: cacheKey_def js_def)

lemma cacheKey_eq: "cacheKey x = cacheKey y \<longleftrightarrow> toLowerCase x = toLowerCase y"
  by (simp add: cacheKey_def)

lemma fold_upd_by_key:
  assumes "\<And>a. val a = g (key a)"
  shows "fold (\<lambda>a m. m(key a \<mapsto> val a)) xs m k
         = (if k \<in> key ` set xs then Some (g k) else m k)"
  using assms by (induction xs arbitrary: m) auto

lemma store_chunk_lookup:
  "store_chunk chunk fresh now k
   = (if k \<in> cacheKey ` set chunk
      then Some \<lparr>entry_n = (if truthy (fresh (drop 4 k)) then fresh (drop 4 k) else None),
                 entry_t = now\<rparr>
      else None)"
proof -
  have "fold (\<lambda>a m. m(cacheKey a \<mapsto>
                \<lparr>entry_n = (if truthy (fresh (toLowerCase a)) then fresh (toLowerCase a) else None),
                 entry_t = now\<rparr>)) chunk Map.empty k
        = (if k \<in> cacheKey ` set chunk
           then Some \<lparr>entry_n = (if truthy (fresh (drop 4 k)) then fresh (drop 4 k) else None),
                      entry_t = now\<rparr>
           else Map.empty k)"
    by (rule fold_upd_by_key) simp
  then show ?thesis
    unfolding store_chunk_def Let_def by simp
qed

subsection \<open>What the cache read puts into the results\<close>

lemma cache_read_step_fst:
  "fst (cache_read_step cached now ttl a (res, unc))
   = (if hit_with_name cached now ttl a
      then res(toLowerCase a := entry_n (the (cached (cacheKey a)))) else res)"
  by (auto simp: cache_read_step_def hit_with_name_def split: option.splits)

lemma cache_read_fold_None:
  "\<forall>x\<in>set addresses. toLowerCase x = k \<longrightarrow> \<not> hit_with_name cached now ttl x \<Longrightarrow>
   fst (fold (cache_read_step cached now ttl) addresses st) k = fst st k"
proof (induction addresses arbitrary: st)
  case Nil
  then show ?case by simp
next
  case (Cons a addresses)
  obtain res unc where st: "st = (res, unc)" by (cases st)
  have "fst (fold (cache_read_step cached now ttl) addresses
               (cache_read_step cached now ttl a st)) k
        = fst (cache_read_step cached now ttl a st) k"
    using Cons.prems by (intro Cons.IH) simp
  also have "\<dots> = fst st k"
    using Cons.prems unfolding st by (auto simp: cache_read_step_fst)
  finally show ?case by simp
qed

lemma cache_read_fold_Some:
  "fst st k \<noteq> None \<or> (\<exists>x\<in>set addresses. toLowerCase x = k \<and> hit_with_name cached now ttl x) \<Longrightarrow>
   fst (fold (cache_read_step cached now ttl) addresses st) k \<noteq> None"
proof (induction addresses arbitrary: st)
  case Nil
  then show ?case by simp
next
  case (Cons a addresses)
  obtain res unc where st: "st = (res, unc)" by (cases st)
  have t: "entry_n (the (cached (cacheKey a))) \<noteq> None" if "hit_with_name cached now ttl a"
    using that by (auto simp: hit_with_name_def truthy_def split: option.splits)
  have "fst (cache_read_step cached now ttl a st) k \<noteq> None
        \<or> (\<exists>x\<in>set addresses. toLowerCase x = k \<and> hit_with_name cached now ttl x)"
    using Cons.prems t unfolding st by (auto simp: cache_read_step_fst)
  from Cons.IH [OF this] show ?case by simp
qed

lemma fst_cache_read_None:
  "\<forall>x\<in>set addresses. toLowerCase x = k \<longrightarrow> \<not> hit_with_name cached now ttl x \<Longrightarrow>
   fst (cache_read cached now ttl addresses) k = None"
  unfolding cache_read_def by (simp add: cache_read_fold_None)

lemma fst_cache_read_Some:
  "x \<in> set addresses \<Longrightarrow> hit_with_name cached now ttl x \<Longrightarrow>
   fst (cache_read cached now ttl addresses) (toLowerCase x) \<noteq> None"
  unfolding cache_read_def by (rule cache_read_fold_Some) auto


subsection \<open>What the chunks hold, for every batch size\<close>

lemma set_slice: "set (slice s a b) \<subseteq> set s"
proof -
  have "set (take n (drop k s)) \<subseteq> set s" for n k
    using set_take_subset [of n "drop k s"] set_drop_subset [of k s] by blast
  then show ?thesis by (simp add: slice_def Let_def)
qed

lemma chunk_loop_subset:
  "chunk_loop mb u i cs = Inr chunks \<Longrightarrow> \<forall>c\<in>set chunks. c \<in> set cs \<or> set c \<subseteq> set u"
proof (induction mb u i cs rule: chunk_loop.induct)
  case (1 mb u i cs)
  show ?case
  proof (cases "i < int (length u)")
    case False
    with "1.prems" have "chunks = cs" by (subst (asm) chunk_loop.simps) simp
    then show ?thesis by simp
  next
    case True
    show ?thesis
    proof (cases "push cs (slice u i (i + mb))")
      case (Inl e)
      with True "1.prems" show ?thesis by (subst (asm) chunk_loop.simps) simp
    next
      case (Inr cs')
      then have cs': "cs' = cs @ [slice u i (i + mb)]" by (auto simp: push_def split: if_splits)
      from True Inr "1.prems" have "chunk_loop mb u (i + mb) cs' = Inr chunks"
        by (subst (asm) chunk_loop.simps) simp
      from "1.IH" [OF True Inr this] show ?thesis
        using set_slice [of u i "i + mb"] by (auto simp: cs')
    qed
  qed
qed

lemma chunk_loop_nonpositive:
  "mb \<le> 0 \<Longrightarrow> i < int (length u) \<Longrightarrow> chunk_loop mb u i cs = Inl RangeError"
proof (induction mb u i cs rule: chunk_loop.induct)
  case (1 mb u i cs)
  show ?case
  proof (cases "push cs (slice u i (i + mb))")
    case (Inl e)
    then have "e = RangeError" by (auto simp: push_def split: if_splits)
    with Inl "1.prems" show ?thesis by (subst chunk_loop.simps) simp
  next
    case (Inr cs')
    have "chunk_loop mb u (i + mb) cs' = Inl RangeError"
      using "1.prems" by (intro "1.IH" [OF _ Inr]) simp_all
    with Inr "1.prems" show ?thesis by (subst chunk_loop.simps) simp
  qed
qed

lemma chunk_loop_covers:
  "chunk_loop mb u i cs = Inr chunks \<Longrightarrow> 0 \<le> i \<Longrightarrow>
   set cs \<subseteq> set chunks \<and> set (drop (nat i) u) \<subseteq> \<Union> (set ` set chunks)"
proof (induction mb u i cs rule: chunk_loop.induct)
  case (1 mb u i cs)
  show ?case
  proof (cases "i < int (length u)")
    case False
    with "1.prems" have "chunks = cs" by (subst (asm) chunk_loop.simps) simp
    with False show ?thesis by simp
  next
    case True
    show ?thesis
    proof (cases "push cs (slice u i (i + mb))")
      case (Inl e)
      with True "1.prems" show ?thesis by (subst (asm) chunk_loop.simps) simp
    next
      case (Inr cs')
      then have cs': "cs' = cs @ [slice u i (i + mb)]" by (auto simp: push_def split: if_splits)
      from True Inr "1.prems" have rec: "chunk_loop mb u (i + mb) cs' = Inr chunks"
        by (subst (asm) chunk_loop.simps) simp
      have pos: "0 < mb"
      proof (rule ccontr)
        assume "\<not> 0 < mb"
        then have "chunk_loop mb u (i + mb) cs' = Inl RangeError"
          using True by (intro chunk_loop_nonpositive) simp_all
        with rec show False by simp
      qed
      from "1.IH" [OF True Inr rec] "1.prems"(2) pos
      have ih: "set cs' \<subseteq> set chunks" "set (drop (nat (i + mb)) u) \<subseteq> \<Union> (set ` set chunks)"
        by simp_all
      have "nat i \<le> length u" using True "1.prems"(2) by simp
      from slice_take_drop [OF this, of "nat mb"] "1.prems"(2) pos
      have sl: "slice u i (i + mb) = take (nat mb) (drop (nat i) u)" by simp
      have "drop (nat i) u = take (nat mb) (drop (nat i) u) @ drop (nat mb) (drop (nat i) u)"
        by (rule append_take_drop_id [symmetric])
      also have "drop (nat mb) (drop (nat i) u) = drop (nat (i + mb)) u"
        using "1.prems"(2) pos by (simp add: nat_add_distrib add.commute)
      finally have "set (drop (nat i) u)
            = set (slice u i (i + mb)) \<union> set (drop (nat (i + mb)) u)"
        unfolding sl by (metis set_append)
      moreover have "slice u i (i + mb) \<in> set chunks" using ih(1) by (simp add: cs')
      ultimately show ?thesis using ih by (auto simp: cs')
    qed
  qed
qed


subsection \<open>Names and cache entries after the loop over the chunks\<close>

lemma resolve_chunks_Inr_Cons:
  assumes "resolve_chunks net enabled (c # chunks) (results, w) = (Inr names, w')"
  shows "\<exists>fresh w1. resolveViaRPC net w c = (Inr fresh, w1)
           \<and> resolve_chunks net enabled chunks
                (results ++ fresh,
                 if enabled then w1\<lparr>local := local w1 ++ store_chunk c fresh (clock w1)\<rparr> else w1)
              = (Inr names, w')"
proof -
  obtain r1 w1 where v: "resolveViaRPC net w c = (r1, w1)"
    by (cases "resolveViaRPC net w c")
  show ?thesis
  proof (cases r1)
    case (Inl e)
    with assms v show ?thesis by (simp add: resolve_chunks_step)
  next
    case (Inr fresh)
    with assms v show ?thesis by (simp add: resolve_chunks_step)
  qed
qed

lemma resolve_chunks_names_dom:
  "resolve_chunks net enabled chunks (results, w) = (Inr names, w') \<Longrightarrow> names k \<noteq> None \<Longrightarrow>
   results k \<noteq> None \<or> k \<in> toLowerCase ` \<Union> (set ` set chunks)"
proof (induction chunks arbitrary: results w)
  case Nil
  then show ?case by simp
next
  case (Cons c chunks)
  from resolve_chunks_Inr_Cons [OF Cons.prems(1)] obtain fresh w1 where
    v: "resolveViaRPC net w c = (Inr fresh, w1)" and
    rest: "resolve_chunks net enabled chunks
             (results ++ fresh,
              if enabled then w1\<lparr>local := local w1 ++ store_chunk c fresh (clock w1)\<rparr> else w1)
           = (Inr names, w')"
    by blast
  from Cons.IH [OF rest Cons.prems(2)]
  have "(results ++ fresh) k \<noteq> None \<or> k \<in> toLowerCase ` \<Union> (set ` set chunks)" .
  moreover have "k \<in> toLowerCase ` set c" if "fresh k \<noteq> None"
    using that resolveViaRPC_dom [OF v] by auto
  ultimately show ?case by (auto simp: map_add_def split: option.splits)
qed

lemma resolve_chunks_local_frame:
  "resolve_chunks net enabled chunks (results, w) = (r, w') \<Longrightarrow>
   key \<notin> cacheKey ` \<Union> (set ` set chunks) \<Longrightarrow> local w' key = local w key"
proof (induction chunks arbitrary: results w)
  case Nil
  then show ?case by simp
next
  case (Cons c chunks)
  obtain r1 w1 where v: "resolveViaRPC net w c = (r1, w1)"
    by (cases "resolveViaRPC net w c")
  note f = resolveViaRPC_frame [OF v]
  show ?case
  proof (cases r1)
    case (Inl e)
    with Cons.prems v f show ?thesis by (simp add: resolve_chunks_step)
  next
    case (Inr fresh)
    define w2 where "w2 = (if enabled
        then w1\<lparr>local := local w1 ++ store_chunk c fresh (clock w1)\<rparr> else w1)"
    from Cons.prems(1) v Inr have "resolve_chunks net enabled chunks (results ++ fresh, w2) = (r, w')"
      by (simp add: resolve_chunks_step w2_def)
    from Cons.IH [OF this] Cons.prems(2) have "local w' key = local w2 key" by auto
    moreover have "store_chunk c fresh (clock w1) key = None"
      using Cons.prems(2) by (auto simp: store_chunk_lookup)
    ultimately show ?thesis using f by (simp add: w2_def map_add_def)
  qed
qed

lemma resolve_chunks_negative:
  assumes dur: "\<forall>k cd. 0 \<le> snd (net k cd)"
  shows "resolve_chunks net True chunks (results, w) = (Inr names, w') \<Longrightarrow>
         names (toLowerCase a) = None \<Longrightarrow>
         results (toLowerCase a) = None
         \<and> (cacheKey a \<in> cacheKey ` \<Union> (set ` set chunks) \<longrightarrow>
              (\<exists>e. local w' (cacheKey a) = Some e \<and> entry_n e = None \<and> clock w \<le> entry_t e))"
proof (induction chunks arbitrary: results w)
  case Nil
  then show ?case by simp
next
  case (Cons c chunks)
  from resolve_chunks_Inr_Cons [OF Cons.prems(1)] obtain fresh w1 where
    v: "resolveViaRPC net w c = (Inr fresh, w1)" and
    rest: "resolve_chunks net True chunks
             (results ++ fresh, w1\<lparr>local := local w1 ++ store_chunk c fresh (clock w1)\<rparr>)
           = (Inr names, w')"
    by auto
  define w2 where "w2 = w1\<lparr>local := local w1 ++ store_chunk c fresh (clock w1)\<rparr>"
  have ck: "clock w \<le> clock w1" by (rule resolveViaRPC_clock [OF v dur])
  from Cons.IH [OF rest [folded w2_def] Cons.prems(2)]
  have ih: "(results ++ fresh) (toLowerCase a) = None"
    "cacheKey a \<in> cacheKey ` \<Union> (set ` set chunks) \<longrightarrow>
      (\<exists>e. local w' (cacheKey a) = Some e \<and> entry_n e = None \<and> clock w2 \<le> entry_t e)"
    by simp_all
  from ih(1) have none: "results (toLowerCase a) = None" "fresh (toLowerCase a) = None"
    by (simp_all add: map_add_def split: option.splits)
  have "\<exists>e. local w' (cacheKey a) = Some e \<and> entry_n e = None \<and> clock w \<le> entry_t e"
    if k: "cacheKey a \<in> cacheKey ` \<Union> (set ` set (c # chunks))"
  proof (cases "cacheKey a \<in> cacheKey ` \<Union> (set ` set chunks)")
    case True
    with ih(2) ck show ?thesis by (auto simp: w2_def)
  next
    case False
    with k have inc: "cacheKey a \<in> cacheKey ` set c" by auto
    from resolve_chunks_local_frame [OF rest [folded w2_def] False]
    have "local w' (cacheKey a) = local w2 (cacheKey a)" .
    also have "\<dots> = Some \<lparr>entry_n = None, entry_t = clock w1\<rparr>"
      using inc none(2) by (simp add: w2_def map_add_def store_chunk_lookup truthy_def)
    finally show ?thesis using ck by simp
  qed
  with none(1) show ?case by blast
qed

lemma resolve_chunks_keeps:
  "resolve_chunks net enabled chunks (results, w) = (Inr names, w') \<Longrightarrow> results k \<noteq> None \<Longrightarrow>
   names k \<noteq> None"
proof (induction chunks arbitrary: results w)
  case Nil
  then show ?case by simp
next
  case (Cons c chunks)
  from resolve_chunks_Inr_Cons [OF Cons.prems(1)] obtain fresh w1 where
    rest: "resolve_chunks net enabled chunks
             (results ++ fresh,
              if enabled then w1\<lparr>local := local w1 ++ store_chunk c fresh (clock w1)\<rparr> else w1)
           = (Inr names, w')"
    by blast
  from Cons.prems(2) have "(results ++ fresh) k \<noteq> None" by simp
  from Cons.IH [OF rest this] show ?case .
qed

lemma resolve_chunks_written:
  "resolve_chunks net True chunks (results, w) = (Inr names, w') \<Longrightarrow>
   names (toLowerCase a) = None \<Longrightarrow> cacheKey a \<in> cacheKey ` \<Union> (set ` set chunks) \<Longrightarrow>
   \<exists>e. local w' (cacheKey a) = Some e \<and> entry_n e = None"
proof (induction chunks arbitrary: results w)
  case Nil
  then show ?case by simp
next
  case (Cons c chunks)
  from resolve_chunks_Inr_Cons [OF Cons.prems(1)] obtain fresh w1 where
    v: "resolveViaRPC net w c = (Inr fresh, w1)" and
    rest: "resolve_chunks net True chunks
             (results ++ fresh, w1\<lparr>local := local w1 ++ store_chunk c fresh (clock w1)\<rparr>)
           = (Inr names, w')"
    by auto
  show ?case
  proof (cases "cacheKey a \<in> cacheKey ` \<Union> (set ` set chunks)")
    case True
    from Cons.IH [OF rest Cons.prems(2) True] show ?thesis .
  next
    case False
    with Cons.prems(3) have inc: "cacheKey a \<in> cacheKey ` set c" by auto
    have "(results ++ fresh) (toLowerCase a) = None"
    proof (rule ccontr)
      assume "(results ++ fresh) (toLowerCase a) \<noteq> None"
      from resolve_chunks_keeps [OF rest this] Cons.prems(2) show False by simp
    qed
    then have none: "fresh (toLowerCase a) = None"
      by (simp add: map_add_def split: option.splits)
    from resolve_chunks_local_frame [OF rest False]
    have "local w' (cacheKey a)
          = (local w1 ++ store_chunk c fresh (clock w1)) (cacheKey a)" by simp
    also have "\<dots> = Some \<lparr>entry_n = None, entry_t = clock w1\<rparr>"
      using inc none by (simp add: map_add_def store_chunk_lookup truthy_def)
    finally show ?thesis by simp
  qed
qed

subsection \<open>Negative cache hits\<close>

lemma same_key_not_hit:
  assumes "negative_hit w a" and "toLowerCase x = toLowerCase a"
  shows "\<not> hit_with_name (local w) (clock w) (cacheTtlMinutes (config w) * 60 * 1000) x"
    and "fresh_entry (local w) (clock w) (cacheTtlMinutes (config w) * 60 * 1000) x"
  using assms
  by (auto simp: negative_hit_def hit_with_name_def fresh_entry_def cacheKey_def
      split: option.splits)

lemma uncached_not_hit:
  assumes "cacheEnabled (config w)" and "negative_hit w a"
  shows "toLowerCase a \<notin> toLowerCase ` set (uncached_at w (clock w) addresses)"
  using assms same_key_not_hit(2) [OF assms(2)]
  by (auto simp: uncached_at_def)

lemma negative_hit_no_call:
  assumes en: "cacheEnabled (config w)" and hit: "negative_hit w a"
  shows "no_call_and_absent net w addresses a"
proof -
  define ttl where "ttl = cacheTtlMinutes (config w) * 60 * 1000"
  define results where "results = fst (cache_read (local w) (clock w) ttl addresses)"
  define uncached where "uncached = uncached_at w (clock w) addresses"
  obtain r w' where res: "resolveAddresses net w addresses = (r, w')"
    by (cases "resolveAddresses net w addresses")
  have un: "toLowerCase a \<notin> toLowerCase ` set uncached"
    unfolding uncached_def by (rule uncached_not_hit [OF en hit])
  then have a_un: "a \<notin> set uncached" by auto
  have r0: "results (toLowerCase a) = None"
    unfolding results_def ttl_def
    using same_key_not_hit(1) [OF hit] by (intro fst_cache_read_None) simp
  have "(\<forall>c\<in>set (new_calls w w'). toLowerCase a \<notin> toLowerCase ` set (call_chunk c))
        \<and> (case r of Inl e \<Rightarrow> True | Inr names \<Rightarrow> names (toLowerCase a) = None)"
  proof (cases "uncached = []")
    case True
    with res en have "r = Inr results" "w' = w"
      by (auto simp: resolveAddresses_unfold Let_def uncached_def results_def ttl_def)
    with r0 show ?thesis by (simp add: new_calls_def)
  next
    case False
    show ?thesis
    proof (cases "chunk_loop (maxBatchSize (config w)) uncached 0 []")
      case (Inl e)
      with res en False have "w' = w"
        by (simp add: resolveAddresses_unfold Let_def uncached_def)
      moreover from Inl res en False have "r = Inl e"
        by (simp add: resolveAddresses_unfold Let_def uncached_def)
      ultimately show ?thesis by (simp add: new_calls_def)
    next
      case (Inr chunks)
      with res en False have rc: "resolve_chunks net True chunks (results, w) = (r, w')"
        by (simp add: resolveAddresses_unfold Let_def uncached_def results_def ttl_def)
      from chunk_loop_subset [OF Inr] have sub: "\<forall>c\<in>set chunks. set c \<subseteq> set uncached" by simp
      from resolve_chunks_calls [OF rc] obtain new j where
        c: "calls w' = calls w @ new" "map call_chunk new = take j chunks" by blast
      have "toLowerCase a \<notin> toLowerCase ` set (call_chunk x)" if "x \<in> set (new_calls w w')" for x
      proof -
        from that c(1) have "call_chunk x \<in> set (map call_chunk new)"
          by (simp add: new_calls_def)
        with c(2) have "call_chunk x \<in> set chunks" by (auto dest: in_set_takeD)
        with sub un show ?thesis by blast
      qed
      moreover have "names (toLowerCase a) = None" if "r = Inr names" for names
      proof (rule ccontr)
        assume "names (toLowerCase a) \<noteq> None"
        from resolve_chunks_names_dom [OF rc [unfolded that] this] r0
        have "toLowerCase a \<in> toLowerCase ` \<Union> (set ` set chunks)" by simp
        with sub un show False by blast
      qed
      ultimately show ?thesis by (auto split: sum.splits)
    qed
  qed
  with a_un res show ?thesis
    by (simp add: no_call_and_absent_def uncached_def)
qed

lemma no_name_leaves_negative_entry:
  assumes en: "cacheEnabled (config w)" and a: "a \<in> set addresses"
    and res: "resolveAddresses net w addresses = (Inr names, w1)"
    and none: "names (toLowerCase a) = None"
  shows "\<exists>e. local w1 (cacheKey a) = Some e \<and> \<not> truthy (entry_n e)"
    and "\<forall>k cd. 0 \<le> snd (net k cd) \<Longrightarrow> negative_entry w (cacheKey a) (local w1 (cacheKey a))"
proof -
  define ttl where "ttl = cacheTtlMinutes (config w) * 60 * 1000"
  define results where "results = fst (cache_read (local w) (clock w) ttl addresses)"
  define uncached where "uncached = uncached_at w (clock w) addresses"
  have unc: "uncached = filter (\<lambda>x. \<not> fresh_entry (local w) (clock w) ttl x) addresses"
    using en by (simp add: uncached_def uncached_at_def ttl_def)
  have both: "(\<exists>e. local w1 (cacheKey a) = Some e \<and> \<not> truthy (entry_n e))
     \<and> ((\<forall>k cd. 0 \<le> snd (net k cd)) \<longrightarrow> negative_entry w (cacheKey a) (local w1 (cacheKey a)))"
  proof (cases "fresh_entry (local w) (clock w) ttl a")
    case True
    then obtain e where e: "local w (cacheKey a) = Some e" "clock w - entry_t e < ttl"
      by (auto simp: fresh_entry_def split: option.splits)
    have key: "cacheKey a \<notin> cacheKey ` set uncached"
      using True unfolding unc by (auto simp: fresh_entry_def)
    have "local w1 (cacheKey a) = local w (cacheKey a)
          \<and> results (toLowerCase a) = None"
    proof (cases "uncached = []")
      case True
      with res en have "names = results" "w1 = w"
        by (auto simp: resolveAddresses_unfold Let_def uncached_def results_def ttl_def)
      with none show ?thesis by simp
    next
      case False
      with res en obtain chunks where
        cl: "chunk_loop (maxBatchSize (config w)) uncached 0 [] = Inr chunks" and
        rc: "resolve_chunks net True chunks (results, w) = (Inr names, w1)"
        by (auto simp: resolveAddresses_unfold Let_def uncached_def results_def ttl_def
            split: sum.splits)
      from chunk_loop_subset [OF cl] have "\<forall>c\<in>set chunks. set c \<subseteq> set uncached" by simp
      with key have "cacheKey a \<notin> cacheKey ` \<Union> (set ` set chunks)" by blast
      from resolve_chunks_local_frame [OF rc this]
      have "local w1 (cacheKey a) = local w (cacheKey a)" .
      moreover have "results (toLowerCase a) = None"
      proof (rule ccontr)
        assume "results (toLowerCase a) \<noteq> None"
        from resolve_chunks_keeps [OF rc this] none show False by simp
      qed
      ultimately show ?thesis by simp
    qed
    moreover have "\<not> truthy (entry_n e)"
    proof
      assume "truthy (entry_n e)"
      with e have "hit_with_name (local w) (clock w) ttl a"
        by (simp add: hit_with_name_def)
      from fst_cache_read_Some [OF a this] have "results (toLowerCase a) \<noteq> None"
        by (simp add: results_def)
      with calculation show False by simp
    qed
    ultimately show ?thesis
      using e by (simp add: negative_entry_def ttl_def)
  next
    case False
    with a have au: "a \<in> set uncached" by (simp add: unc)
    then have "uncached \<noteq> []" by auto
    with res en obtain chunks where
      cl: "chunk_loop (maxBatchSize (config w)) uncached 0 [] = Inr chunks" and
      rc: "resolve_chunks net True chunks (results, w) = (Inr names, w1)"
      by (auto simp: resolveAddresses_unfold Let_def uncached_def results_def ttl_def
          split: sum.splits)
    from chunk_loop_covers [OF cl] au have "a \<in> \<Union> (set ` set chunks)" by auto
    then have key: "cacheKey a \<in> cacheKey ` \<Union> (set ` set chunks)" by blast
    from resolve_chunks_written [OF rc none key]
    have 1: "\<exists>e. local w1 (cacheKey a) = Some e \<and> entry_n e = None" .
    have 2: "negative_entry w (cacheKey a) (local w1 (cacheKey a))"
      if dur: "\<forall>k cd. 0 \<le> snd (net k cd)"
      using resolve_chunks_negative [OF dur rc none] key
      by (auto simp: negative_entry_def truthy_def)
    from 1 2 show ?thesis by (auto simp: truthy_def)
  qed
  from both show "\<exists>e. local w1 (cacheKey a) = Some e \<and> \<not> truthy (entry_n e)" by simp
  from both show "negative_entry w (cacheKey a) (local w1 (cacheKey a))"
    if "\<forall>k cd. 0 \<le> snd (net k cd)" using that by simp
qed


subsection \<open>The negative-cache contract\<close>

text \<open>
  C8 (amended). With caching enabled: for every address whose cache entry is fresh
  (now minus its timestamp is less than the configured TTL) and has no name, a resolve
  call classifies it as a cache hit, issues no transport call for it, and leaves it out
  of the mapping it returns. A resolve call that returns with no name for one of its
  addresses leaves an entry without a name for it in the cache (written during the
  call, or the fresh one that was there), so that the same holds on every later resolve
  call that finds this entry within the TTL.
\<close>

theorem negative_cache_contract:
  assumes "cacheEnabled (config w)" and "a \<in> set addresses"
  shows "(negative_hit w a \<longrightarrow> no_call_and_absent net w addresses a)
       \<and> (\<forall>names w1.
            resolveAddresses net w addresses = (Inr names, w1) \<and> names (toLowerCase a) = None \<longrightarrow>
            (\<exists>e. local w1 (cacheKey a) = Some e \<and> \<not> truthy (entry_n e))
            \<and> ((\<forall>k cd. 0 \<le> snd (net k cd))
                 \<longrightarrow> negative_entry w (cacheKey a) (local w1 (cacheKey a)))
            \<and> (\<forall>net2 (w2::world) addresses2.
                  cacheEnabled (config w2)
                  \<and> local w2 (cacheKey a) = local w1 (cacheKey a)
                  \<and> (\<forall>e. local w1 (cacheKey a) = Some e \<longrightarrow>
                         clock w2 - entry_t e < cacheTtlMinutes (config w2) * 60 * 1000)
                  \<longrightarrow> no_call_and_absent net2 w2 addresses2 a))"
proof (intro conjI allI impI)
  assume "negative_hit w a"
  with assms(1) show "no_call_and_absent net w addresses a" by (rule negative_hit_no_call)
next
  fix names w1
  assume r: "resolveAddresses net w addresses = (Inr names, w1) \<and> names (toLowerCase a) = None"
  then show "\<exists>e. local w1 (cacheKey a) = Some e \<and> \<not> truthy (entry_n e)"
    using no_name_leaves_negative_entry(1) [OF assms] by blast
next
  fix names w1
  assume r: "resolveAddresses net w addresses = (Inr names, w1) \<and> names (toLowerCase a) = None"
    and "\<forall>k cd. 0 \<le> snd (net k cd)"
  then show "negative_entry w (cacheKey a) (local w1 (cacheKey a))"
    using no_name_leaves_negative_entry(2) [OF assms] by blast
next
  fix names w1 net2 and w2 :: world and addresses2
  assume r: "resolveAddresses net w addresses = (Inr names, w1) \<and> names (toLowerCase a) = None"
    and s: "cacheEnabled (config w2) \<and> local w2 (cacheKey a) = local w1 (cacheKey a)
            \<and> (\<forall>e. local w1 (cacheKey a) = Some e \<longrightarrow>
                   clock w2 - entry_t e < cacheTtlMinutes (config w2) * 60 * 1000)"
  from r obtain e where "local w1 (cacheKey a) = Some e" "\<not> truthy (entry_n e)"
    using no_name_leaves_negative_entry(1) [OF assms] by blast
  with s have "negative_hit w2 a" by (simp add: negative_hit_def)
  with s show "no_call_and_absent net2 w2 addresses2 a" by (intro negative_hit_no_call) simp
qed

lemma chunks_of_single: "0 < m \<Longrightarrow> chunks_of m [a] = [[a]]"
  by (simp add: chunks_of_Cons)

lemma store_chunk_single_none:
  "store_chunk [a] Map.empty now = [cacheKey a \<mapsto> \<lparr>entry_n = None, entry_t = now\<rparr>]"
  by (simp add: store_chunk_def truthy_def)

lemma first_resolve_A:
  "resolveAddresses net_no_result (world_of (config_of True 50)) [addr_A]
   = (Inr Map.empty, world_after_A)"
proof -
  define W where "W = world_of (config_of True 50)"
  have f: "maxBatchSize (config W) = 50" "cacheEnabled (config W)" "local W = Map.empty"
    "clock W = 5000" "calls W = []"
    by (simp_all add: W_def world_of_def config_of_def)
  have u: "uncached_at W (clock W) [addr_A] = [addr_A]"
    by (simp add: uncached_at_def f fresh_entry_def)
  have c: "fst (cache_read (local W) (clock W) (cacheTtlMinutes (config W) * 60 * 1000) [addr_A])
           = Map.empty"
    by (simp add: cache_read_def cache_read_step_def f)
  have "resolveAddresses net_no_result W [addr_A]
        = resolve_chunks net_no_result True [[addr_A]] (Map.empty, W)"
    using resolveAddresses_chunks [of W "[addr_A]" net_no_result] f(1,2) u c
    by (simp add: MAX_ARRAY_LENGTH_def chunks_of_single del: resolve_chunks.simps)
  also have "\<dots> = (Inr Map.empty, world_after_A)"
    by (simp add: resolve_chunks_step resolveViaRPC_no_result encodeMulticall_single
        VALID_ADDR_A_B net_no_result_def store_chunk_single_none world_after_A_def
        W_def world_of_def config_of_def)
  finally show ?thesis by (simp add: W_def)
qed

lemma resolve_disabled_A:
  "resolveAddresses net_no_result (world_negative_A False) [addr_A]
   = (Inr Map.empty,
      (world_negative_A False)\<lparr>calls := [(5000, [addr_A], multicall_layout [addr_A])],
                                clock := 5100\<rparr>)"
proof -
  define W where "W = world_negative_A False"
  have f: "maxBatchSize (config W) = 50" "\<not> cacheEnabled (config W)"
    "clock W = 5000" "calls W = []"
    by (simp_all add: W_def world_negative_A_def world_of_def config_of_def)
  have "resolveAddresses net_no_result W [addr_A]
        = resolve_chunks net_no_result False [[addr_A]] (Map.empty, W)"
    using resolveAddresses_chunks [of W "[addr_A]" net_no_result] f(1,2)
    by (simp add: MAX_ARRAY_LENGTH_def chunks_of_single uncached_disabled
        del: resolve_chunks.simps)
  also have "\<dots> = (Inr Map.empty, W\<lparr>calls := [(5000, [addr_A], multicall_layout [addr_A])],
                                      clock := 5100\<rparr>)"
    by (simp add: resolve_chunks_step resolveViaRPC_no_result encodeMulticall_single
        VALID_ADDR_A_B net_no_result_def f)
  finally show ?thesis by (simp add: W_def)
qed

lemma negative_hit_examples:
  "negative_hit (world_negative_A enabled) addr_A" "negative_hit world_after_A addr_A"
  by (simp_all add: negative_hit_def world_negative_A_def world_after_A_def world_of_def
      config_of_def truthy_def)

text \<open>The theorem on \<open>addr_A\<close>: with a fresh negative entry it is a hit; resolved once
  with no result from the empty cache, it is a hit on the next call.\<close>

theorem negative_cache_contract_witness:
  "cacheEnabled (config (world_negative_A True)) \<and> addr_A \<in> set [addr_A]
   \<and> negative_hit (world_negative_A True) addr_A
   \<and> no_call_and_absent net_no_result (world_negative_A True) [addr_A] addr_A
   \<and> cacheEnabled (config (world_of (config_of True 50)))
   \<and> resolveAddresses net_no_result (world_of (config_of True 50)) [addr_A]
       = (Inr Map.empty, world_after_A)
   \<and> local world_after_A (cacheKey addr_A) = Some \<lparr>entry_n = None, entry_t = 5100\<rparr>
   \<and> negative_entry (world_of (config_of True 50)) (cacheKey addr_A)
        (local world_after_A (cacheKey addr_A))
   \<and> no_call_and_absent net_no_result world_after_A [addr_A] addr_A"
proof -
  have en: "cacheEnabled (config (world_negative_A True))"
    "cacheEnabled (config (world_of (config_of True 50)))" "cacheEnabled (config world_after_A)"
    by (simp_all add: world_negative_A_def world_of_def config_of_def world_after_A_def)
  have a: "addr_A \<in> set [addr_A]" by simp
  have e: "local world_after_A (cacheKey addr_A) = Some \<lparr>entry_n = None, entry_t = 5100\<rparr>"
    by (simp add: world_after_A_def)
  have ttl: "clock world_after_A - 5100 < cacheTtlMinutes (config world_after_A) * 60 * 1000"
    by (simp add: world_after_A_def config_of_def)
  have dur: "\<forall>k cd. 0 \<le> snd (net_no_result k cd)" by (simp add: net_no_result_def)
  from negative_cache_contract [OF en(1) a, of net_no_result] negative_hit_examples(1)
  have 1: "no_call_and_absent net_no_result (world_negative_A True) [addr_A] addr_A" by blast
  from negative_cache_contract [OF en(2) a, of net_no_result] first_resolve_A
  have 2: "((\<forall>k cd. 0 \<le> snd (net_no_result k cd))
             \<longrightarrow> negative_entry (world_of (config_of True 50)) (cacheKey addr_A)
                   (local world_after_A (cacheKey addr_A)))
         \<and> (\<forall>net2 (w2::world) addresses2.
                  cacheEnabled (config w2)
                  \<and> local w2 (cacheKey addr_A) = local world_after_A (cacheKey addr_A)
                  \<and> (\<forall>e. local world_after_A (cacheKey addr_A) = Some e \<longrightarrow>
                         clock w2 - entry_t e < cacheTtlMinutes (config w2) * 60 * 1000)
                  \<longrightarrow> no_call_and_absent net2 w2 addresses2 addr_A)"
    by simp
  from 2 dur have 3: "negative_entry (world_of (config_of True 50)) (cacheKey addr_A)
                   (local world_after_A (cacheKey addr_A))" by blast
  from 2 en(3) e ttl have 4: "no_call_and_absent net_no_result world_after_A [addr_A] addr_A"
    by simp
  from en a negative_hit_examples(1) 1 first_resolve_A e 3 4 show ?thesis by simp
qed

text \<open>The claim as first stated fails when caching is disabled: the entry of \<open>addr_A\<close>
  is fresh and has no name, and the resolve call issues a transport call for it.\<close>

theorem cache_disabled_counterexample:
  "negative_hit (world_negative_A False) addr_A
   \<and> map call_chunk
        (new_calls (world_negative_A False)
           (snd (resolveAddresses net_no_result (world_negative_A False) [addr_A])))
     = [[addr_A]]
   \<and> \<not> no_call_and_absent net_no_result (world_negative_A False) [addr_A] addr_A"
  by (simp add: negative_hit_examples resolve_disabled_A no_call_and_absent_def new_calls_def
      uncached_disabled)
     (simp add: world_negative_A_def world_of_def config_of_def)

section \<open>A chunk whose transport call fails\<close>

lemma resolve_chunks_append:
  "resolve_chunks net enabled (xs @ ys) (results, w) =
     (case resolve_chunks net enabled xs (results, w) of
        (Inl e, w1) \<Rightarrow> (Inl e, w1)
      | (Inr r1, w1) \<Rightarrow> resolve_chunks net enabled ys (r1, w1))"
proof (induction xs arbitrary: results w)
  case Nil
  show ?case by simp
next
  case (Cons c xs)
  obtain r1 w1 where v: "resolveViaRPC net w c = (r1, w1)"
    by (cases "resolveViaRPC net w c")
  show ?case
  proof (cases r1)
    case (Inl e)
    with v show ?thesis
      by (simp only: append_Cons resolve_chunks_step) simp
  next
    case (Inr fresh)
    with v Cons.IH show ?thesis
      by (simp only: append_Cons resolve_chunks_step) simp
  qed
qed

text \<open>The outcome of one transport call, by the reply.\<close>

lemma decode_throws:
  "decodeAggregate3 (Some hex) =
     (case call_throws (Result hex) of
        Some e \<Rightarrow> Inl e
      | None \<Rightarrow> decodeAggregate3 (Some hex))"
  "call_throws (Result hex) = None \<Longrightarrow> \<exists>names. decodeAggregate3 (Some hex) = Inr names"
  by (auto simp: decode_outcome [of hex] call_throws_def split: option.splits)

lemma resolveViaRPC_outcome:
  assumes "encodeMulticall c = Inr cd" and "net (length (calls w)) cd = (rep, d)"
  shows "resolveViaRPC net w c =
           (case call_throws rep of
              Some e \<Rightarrow> (Inl e, after_call w c cd d)
            | None \<Rightarrow> (Inr (reply_names c rep), after_call w c cd d))"
proof (cases rep)
  case (Result hex)
  show ?thesis
  proof (cases "call_throws (Result hex)")
    case None
    from decode_throws(2) [OF this] obtain names where
      "decodeAggregate3 (Some hex) = Inr names" ..
    with assms Result None show ?thesis
      by (simp add: resolveViaRPC_def after_call_def reply_names_def)
  next
    case (Some e)
    with decode_throws(1) [of hex] have "decodeAggregate3 (Some hex) = Inl e" by simp
    with assms Result Some show ?thesis
      by (simp add: resolveViaRPC_def after_call_def)
  qed
qed (use assms in \<open>simp_all add: resolveViaRPC_def after_call_def call_throws_def
       reply_names_def\<close>)

lemma set_names_Nil: "set_names c [] = Map.empty"
proof -
  have "fold (\<lambda>i results. results) is m = m" for "is" :: "nat list" and m :: "jsstring \<rightharpoonup> jsstring"
    by (induction "is") simp_all
  then show ?thesis by (simp add: set_names_def)
qed

lemma no_entries_no_names:
  assumes "no_entries rep"
  shows "call_throws rep = None" and "reply_names c rep = Map.empty"
proof -
  show "call_throws rep = None"
    using assms by (auto simp: no_entries_def call_throws_def split: reply.splits option.splits)
  show "reply_names c rep = Map.empty"
  proof (cases rep)
    case (Result hex)
    with assms have "decodeAggregate3 (Some hex) = Inr []"
      by (auto simp: no_entries_def decode_outcome [of hex] split: option.splits)
    with Result show ?thesis by (simp add: reply_names_def set_names_Nil)
  qed (simp_all add: reply_names_def)
qed

lemma resolveAddresses_hits:
  assumes "1 \<le> maxBatchSize (config w)" and "length addresses \<le> MAX_ARRAY_LENGTH"
  shows "resolveAddresses net w addresses =
     resolve_chunks net (cacheEnabled (config w))
       (chunks_of (nat (maxBatchSize (config w))) (uncached_at w (clock w) addresses))
       (cache_hits w addresses, w)"
  using resolveAddresses_chunks [OF assms] by (simp add: cache_hits_def)

lemma failed_chunk_throws:
  assumes "1 \<le> maxBatchSize (config w)" and "length addresses \<le> MAX_ARRAY_LENGTH"
    and "chunks_of (nat (maxBatchSize (config w))) (uncached_at w (clock w) addresses)
         = pre @ c # post"
    and "resolve_chunks net (cacheEnabled (config w)) pre (cache_hits w addresses, w) = (Inr r1, w1)"
    and "encodeMulticall c = Inr cd"
    and "net (length (calls w1)) cd = (rep, d)"
    and "call_throws rep = Some e"
  shows "resolveAddresses net w addresses = (Inl e, after_call w1 c cd d)"
  using assms(3,4,7) resolveViaRPC_outcome [where net = net and w = w1, OF assms(5,6)]
  by (simp add: resolveAddresses_hits [OF assms(1,2)] resolve_chunks_append resolve_chunks_step
      del: resolve_chunks.simps)

lemma failed_chunk_returns:
  assumes "1 \<le> maxBatchSize (config w)" and "length addresses \<le> MAX_ARRAY_LENGTH"
    and "chunks_of (nat (maxBatchSize (config w))) (uncached_at w (clock w) addresses)
         = pre @ c # post"
    and "resolve_chunks net (cacheEnabled (config w)) pre (cache_hits w addresses, w) = (Inr r1, w1)"
    and "encodeMulticall c = Inr cd"
    and "net (length (calls w1)) cd = (rep, d)"
    and "call_throws rep = None"
  shows "\<exists>w2. resolveAddresses net w addresses =
                 resolve_chunks net (cacheEnabled (config w)) post (r1 ++ reply_names c rep, w2)
              \<and> calls w2 = calls w1 @ [(clock w1, c, cd)] \<and> clock w2 = clock w1 + d
              \<and> config w2 = config w1 \<and> lastRpcTime w2 = lastRpcTime w1"
proof -
  define w2 where "w2 = (if cacheEnabled (config w)
      then (after_call w1 c cd d)
             \<lparr>local := local (after_call w1 c cd d)
                        ++ store_chunk c (reply_names c rep) (clock (after_call w1 c cd d))\<rparr>
      else after_call w1 c cd d)"
  have "resolveAddresses net w addresses =
          resolve_chunks net (cacheEnabled (config w)) post (r1 ++ reply_names c rep, w2)"
    using assms(3,4,7) resolveViaRPC_outcome [where net = net and w = w1, OF assms(5,6)]
    by (simp add: resolveAddresses_hits [OF assms(1,2)] resolve_chunks_append resolve_chunks_step
        w2_def del: resolve_chunks.simps)
  moreover have "calls w2 = calls w1 @ [(clock w1, c, cd)]" "clock w2 = clock w1 + d"
    "config w2 = config w1" "lastRpcTime w2 = lastRpcTime w1"
    by (simp_all add: w2_def after_call_def)
  ultimately show ?thesis by blast
qed

lemma listener_catches:
  assumes "resolveAddresses net (cooled w0) (filter VALID_ADDR msg) = (Inl e, w')"
  shows "on_RESOLVE net w0 msg = (Map.empty, w')"
proof (cases "filter VALID_ADDR msg = []")
  case True
  have "uncached_at (cooled w0) (clock (cooled w0)) [] = []"
    by (simp add: uncached_at_def)
  then have "fst (resolveAddresses net (cooled w0) []) \<noteq> Inl e"
    by (simp add: resolveAddresses_unfold Let_def)
  with assms True show ?thesis by simp
next
  case False
  with assms show ?thesis
    by (simp add: on_RESOLVE_def resolveWithCooldown_cooled Let_def)
qed

text \<open>
  C6 (amended). Let the uncached addresses of a resolve call be chunked into \<open>pre\<close>, the
  chunk \<open>c\<close> and \<open>post\<close>, and let the chunks of \<open>pre\<close> have been answered, leaving the
  names \<open>r1\<close> and the state \<open>w1\<close>.
  \<^item> If the transport call for \<open>c\<close> throws (the request or the reading of the body as JSON
    is rejected, the result is not a string, or it declares more entries than an array
    can hold), the resolve call ends with that exception in the state in which the call
    for \<open>c\<close> has been made: nothing is written to the cache for \<open>c\<close> (an address of \<open>c\<close>
    that no chunk of \<open>pre\<close> holds has the entry it had when the call started, and so
    remains eligible for retry), no call is made for the chunks of \<open>post\<close>, and the message
    listener catches the exception and answers with the empty mapping, so that no
    exception reaches the sender of the message and no address of the call is in the
    answer.
  \<^item> For every other reply no exception is raised, and the resolve call goes on with the
    chunks of \<open>post\<close> after the call for \<open>c\<close>, with the names that the reply carries added
    to the mapping.
  \<^item> A reply without entries (a JSON-RPC error without result, or a result whose length
    word cannot be read or declares no entries) is such a reply, and carries no names.
\<close>

theorem failed_chunk_semantics:
  assumes "1 \<le> maxBatchSize (config w)" and "length addresses \<le> MAX_ARRAY_LENGTH"
    and "chunks_of (nat (maxBatchSize (config w))) (uncached_at w (clock w) addresses)
         = pre @ c # post"
    and "resolve_chunks net (cacheEnabled (config w)) pre (cache_hits w addresses, w) = (Inr r1, w1)"
    and "encodeMulticall c = Inr cd"
    and "net (length (calls w1)) cd = (rep, d)"
  shows "(\<forall>e. call_throws rep = Some e \<longrightarrow>
            resolveAddresses net w addresses = (Inl e, after_call w1 c cd d)
            \<and> local (after_call w1 c cd d) = local w1
            \<and> (\<forall>a\<in>set c. cacheKey a \<notin> cacheKey ` \<Union> (set ` set pre) \<longrightarrow>
                  local (after_call w1 c cd d) (cacheKey a) = local w (cacheKey a))
            \<and> new_calls w1 (after_call w1 c cd d) = [(clock w1, c, cd)]
            \<and> (\<forall>w0 msg. w = cooled w0 \<and> addresses = filter VALID_ADDR msg \<longrightarrow>
                  on_RESOLVE net w0 msg = (Map.empty, after_call w1 c cd d)))
       \<and> (call_throws rep = None \<longrightarrow>
            (\<exists>w2. resolveAddresses net w addresses =
                     resolve_chunks net (cacheEnabled (config w)) post
                       (r1 ++ reply_names c rep, w2)
                  \<and> calls w2 = calls w1 @ [(clock w1, c, cd)] \<and> clock w2 = clock w1 + d
                  \<and> config w2 = config w1 \<and> lastRpcTime w2 = lastRpcTime w1))
       \<and> (no_entries rep \<longrightarrow> call_throws rep = None \<and> reply_names c rep = Map.empty)"
proof (intro conjI impI allI ballI)
  fix e assume "call_throws rep = Some e"
  with assms show "resolveAddresses net w addresses = (Inl e, after_call w1 c cd d)"
    by (intro failed_chunk_throws)
next
  show "local (after_call w1 c cd d) = local w1" by (simp add: after_call_def)
next
  fix a assume "cacheKey a \<notin> cacheKey ` \<Union> (set ` set pre)"
  from resolve_chunks_local_frame [OF assms(4) this]
  show "local (after_call w1 c cd d) (cacheKey a) = local w (cacheKey a)"
    by (simp add: after_call_def)
next
  show "new_calls w1 (after_call w1 c cd d) = [(clock w1, c, cd)]"
    by (simp add: after_call_def new_calls_def)
next
  fix e w0 msg
  assume "call_throws rep = Some e" and "w = cooled w0 \<and> addresses = filter VALID_ADDR msg"
  with assms have "resolveAddresses net (cooled w0) (filter VALID_ADDR msg)
                   = (Inl e, after_call w1 c cd d)"
    using failed_chunk_throws [of w addresses pre c post net r1 w1 cd rep d e] by simp
  then show "on_RESOLVE net w0 msg = (Map.empty, after_call w1 c cd d)"
    by (rule listener_catches)
next
  assume "call_throws rep = None"
  with assms show "\<exists>w2. resolveAddresses net w addresses =
                     resolve_chunks net (cacheEnabled (config w)) post
                       (r1 ++ reply_names c rep, w2)
                  \<and> calls w2 = calls w1 @ [(clock w1, c, cd)] \<and> clock w2 = clock w1 + d
                  \<and> config w2 = config w1 \<and> lastRpcTime w2 = lastRpcTime w1"
    by (intro failed_chunk_returns)
next
  assume "no_entries rep"
  then show "call_throws rep = None" by (rule no_entries_no_names(1))
next
  assume "no_entries rep"
  then show "reply_names c rep = Map.empty" by (rule no_entries_no_names(2))
qed


subsection \<open>Examples with a batch size of 1\<close>

lemma cooled_world_of: "cooled (world_of (config_of True 1)) = world_ready"
  by (simp add: cooled_def waitForCooldown_def world_of_def config_of_def world_ready_def Let_def)

lemma world_ready_fields:
  "maxBatchSize (config world_ready) = 1" "cacheEnabled (config world_ready)"
  "local world_ready = Map.empty" "clock world_ready = 5000" "calls world_ready = []"
  by (simp_all add: world_ready_def config_of_def)

lemma uncached_ready: "uncached_at world_ready now addresses = addresses"
  by (simp add: uncached_at_def world_ready_fields fresh_entry_def)

lemma cache_hits_ready: "cache_hits world_ready addresses = Map.empty"
proof
  fix k
  show "cache_hits world_ready addresses k = None"
    unfolding cache_hits_def
    by (simp add: world_ready_fields fst_cache_read_None hit_with_name_def)
qed

lemma chunks_of_1_three: "chunks_of (Suc 0) [a, b, c] = [[a], [b], [c]]"
  by (simp add: chunks_of_Cons)

lemma one_done:
  assumes "fst (net 0 (multicall_layout [addr_A])) = No_result"
    and "snd (net 0 (multicall_layout [addr_A])) = 100"
  shows "resolve_chunks net True [[addr_A]] (Map.empty, world_ready) = (Inr Map.empty, world_one_done)"
  using assms
  by (simp add: resolve_chunks_step resolveViaRPC_no_result encodeMulticall_single
      VALID_ADDR_A_B store_chunk_single_none world_ready_def world_one_done_def)

lemma reply_examples:
  "call_throws Rejects = Some NetworkError"
  "no_entries (Result (js ''0xzz''))"
  "call_throws (Result huge_payload) = Some RangeError"
  by (simp_all add: call_throws_def no_entries_def declared_length_examples
      MAX_ARRAY_LENGTH_def)

lemma second_rejects_hyps:
  "1 \<le> maxBatchSize (config world_ready)"
  "length [addr_A, addr_B, addr_A] \<le> MAX_ARRAY_LENGTH"
  "chunks_of (nat (maxBatchSize (config world_ready)))
     (uncached_at world_ready (clock world_ready) [addr_A, addr_B, addr_A])
   = [[addr_A]] @ [addr_B] # [[addr_A]]"
  "resolve_chunks net_second_rejects (cacheEnabled (config world_ready)) [[addr_A]]
     (cache_hits world_ready [addr_A, addr_B, addr_A], world_ready)
   = (Inr Map.empty, world_one_done)"
  "encodeMulticall [addr_B] = Inr (multicall_layout [addr_B])"
  "net_second_rejects (length (calls world_one_done)) (multicall_layout [addr_B]) = (Rejects, 100)"
proof -
  show "1 \<le> maxBatchSize (config world_ready)" by (simp add: world_ready_fields)
  show "length [addr_A, addr_B, addr_A] \<le> MAX_ARRAY_LENGTH" by (simp add: MAX_ARRAY_LENGTH_def)
  show "chunks_of (nat (maxBatchSize (config world_ready)))
     (uncached_at world_ready (clock world_ready) [addr_A, addr_B, addr_A])
   = [[addr_A]] @ [addr_B] # [[addr_A]]"
    by (simp add: world_ready_fields uncached_ready chunks_of_1_three)
  show "resolve_chunks net_second_rejects (cacheEnabled (config world_ready)) [[addr_A]]
     (cache_hits world_ready [addr_A, addr_B, addr_A], world_ready)
   = (Inr Map.empty, world_one_done)"
    using one_done [of net_second_rejects]
    by (simp add: world_ready_fields cache_hits_ready net_second_rejects_def
        del: resolve_chunks.simps)
  show "encodeMulticall [addr_B] = Inr (multicall_layout [addr_B])"
    by (rule encodeMulticall_single) (rule VALID_ADDR_A_B)
  show "net_second_rejects (length (calls world_one_done)) (multicall_layout [addr_B])
        = (Rejects, 100)"
    by (simp add: net_second_rejects_def world_one_done_def)
qed

lemma first_chunk_hyps:
  "length [addr_A, addr_B] \<le> MAX_ARRAY_LENGTH"
  "chunks_of (nat (maxBatchSize (config world_ready)))
     (uncached_at world_ready (clock world_ready) [addr_A, addr_B])
   = [] @ [addr_A] # [[addr_B]]"
  "resolve_chunks (net_always rep) (cacheEnabled (config world_ready)) []
     (cache_hits world_ready [addr_A, addr_B], world_ready)
   = (Inr Map.empty, world_ready)"
  "encodeMulticall [addr_A] = Inr (multicall_layout [addr_A])"
  "net_always rep (length (calls world_ready)) (multicall_layout [addr_A]) = (rep, 100)"
proof -
  show "length [addr_A, addr_B] \<le> MAX_ARRAY_LENGTH" by (simp add: MAX_ARRAY_LENGTH_def)
  show "chunks_of (nat (maxBatchSize (config world_ready)))
     (uncached_at world_ready (clock world_ready) [addr_A, addr_B])
   = [] @ [addr_A] # [[addr_B]]"
    by (simp add: world_ready_fields uncached_ready chunks_of_1_two)
  show "resolve_chunks (net_always rep) (cacheEnabled (config world_ready)) []
     (cache_hits world_ready [addr_A, addr_B], world_ready)
   = (Inr Map.empty, world_ready)"
    by (simp add: cache_hits_ready)
  show "encodeMulticall [addr_A] = Inr (multicall_layout [addr_A])"
    by (rule encodeMulticall_single) (rule VALID_ADDR_A_B)
  show "net_always rep (length (calls world_ready)) (multicall_layout [addr_A]) = (rep, 100)"
    by (simp add: net_always_def)
qed

lemma always_one_chunk:
  assumes "call_throws rep = None" and "VALID_ADDR b"
  shows "resolve_chunks (net_always rep) True [[b]] (r, w)
   = (Inr (r ++ reply_names [b] rep),
      (after_call w [b] (multicall_layout [b]) 100)
        \<lparr>local := local w ++ store_chunk [b] (reply_names [b] rep) (clock w + 100)\<rparr>)"
proof -
  have "resolveViaRPC (net_always rep) w [b]
        = (Inr (reply_names [b] rep), after_call w [b] (multicall_layout [b]) 100)"
    using resolveViaRPC_outcome [of "[b]" "multicall_layout [b]" "net_always rep" w rep 100] assms
    by (simp add: encodeMulticall_single net_always_def)
  then show ?thesis
    by (simp add: resolve_chunks_step after_call_def)
qed

text \<open>The theorem on three examples, with a batch size of 1 and caching enabled: three
  chunks of which the second is rejected; two chunks of which the first is answered
  with a result that is not hex; and the same with a result that declares \<open>2^32\<close>
  entries.\<close>

theorem failed_chunk_semantics_witness:
  "1 \<le> maxBatchSize (config world_ready)
   \<and> length [addr_A, addr_B, addr_A] \<le> MAX_ARRAY_LENGTH
   \<and> chunks_of (nat (maxBatchSize (config world_ready)))
       (uncached_at world_ready (clock world_ready) [addr_A, addr_B, addr_A])
     = [[addr_A]] @ [addr_B] # [[addr_A]]
   \<and> resolve_chunks net_second_rejects (cacheEnabled (config world_ready)) [[addr_A]]
       (cache_hits world_ready [addr_A, addr_B, addr_A], world_ready)
     = (Inr Map.empty, world_one_done)
   \<and> encodeMulticall [addr_B] = Inr (multicall_layout [addr_B])
   \<and> net_second_rejects (length (calls world_one_done)) (multicall_layout [addr_B])
     = (Rejects, 100)
   \<and> call_throws Rejects = Some NetworkError
   \<and> resolveAddresses net_second_rejects world_ready [addr_A, addr_B, addr_A]
     = (Inl NetworkError, after_call world_one_done [addr_B] (multicall_layout [addr_B]) 100)
   \<and> on_RESOLVE net_second_rejects (world_of (config_of True 1)) [addr_A, addr_B, addr_A]
     = (Map.empty, after_call world_one_done [addr_B] (multicall_layout [addr_B]) 100)
   \<and> cacheKey addr_B \<notin> cacheKey ` \<Union> (set ` set [[addr_A]])
   \<and> local (after_call world_one_done [addr_B] (multicall_layout [addr_B]) 100)
       (cacheKey addr_B) = None
   \<and> no_entries (Result (js ''0xzz''))
   \<and> fst (resolveAddresses (net_always (Result (js ''0xzz''))) world_ready [addr_A, addr_B])
     = Inr Map.empty
   \<and> map call_chunk
        (calls (snd (resolveAddresses (net_always (Result (js ''0xzz''))) world_ready
                       [addr_A, addr_B])))
     = [[addr_A], [addr_B]]
   \<and> call_throws (Result huge_payload) = Some RangeError
   \<and> resolveAddresses (net_always (Result huge_payload)) world_ready [addr_A, addr_B]
     = (Inl RangeError, after_call world_ready [addr_A] (multicall_layout [addr_A]) 100)"
proof -
  note t1 = failed_chunk_semantics [OF second_rejects_hyps]
  from t1 reply_examples(1)
  have 1: "resolveAddresses net_second_rejects world_ready [addr_A, addr_B, addr_A]
     = (Inl NetworkError, after_call world_one_done [addr_B] (multicall_layout [addr_B]) 100)"
    by blast
  from t1 reply_examples(1)
  have "world_ready = cooled (world_of (config_of True 1))
       \<and> [addr_A, addr_B, addr_A] = filter VALID_ADDR [addr_A, addr_B, addr_A] \<longrightarrow>
     on_RESOLVE net_second_rejects (world_of (config_of True 1)) [addr_A, addr_B, addr_A]
     = (Map.empty, after_call world_one_done [addr_B] (multicall_layout [addr_B]) 100)"
    by blast
  then have 2: "on_RESOLVE net_second_rejects (world_of (config_of True 1))
                  [addr_A, addr_B, addr_A]
     = (Map.empty, after_call world_one_done [addr_B] (multicall_layout [addr_B]) 100)"
    by (simp add: cooled_world_of VALID_ADDR_A_B)
  have k: "cacheKey addr_B \<notin> cacheKey ` \<Union> (set ` set [[addr_A]])"
    by (simp add: cacheKey_def addr_A_def addr_B_def toLowerCase_ascii js_def lower_unit_def)
  from t1 reply_examples(1)
  have "\<forall>a\<in>set [addr_B]. cacheKey a \<notin> cacheKey ` \<Union> (set ` set [[addr_A]]) \<longrightarrow>
          local (after_call world_one_done [addr_B] (multicall_layout [addr_B]) 100)
            (cacheKey a) = local world_ready (cacheKey a)"
    by blast
  with k
  have "local (after_call world_one_done [addr_B] (multicall_layout [addr_B]) 100)
          (cacheKey addr_B) = local world_ready (cacheKey addr_B)"
    by simp
  then have 7: "local (after_call world_one_done [addr_B] (multicall_layout [addr_B]) 100)
          (cacheKey addr_B) = None"
    by (simp add: world_ready_fields)
  define g where "g = Result (js ''0xzz'')"
  have g: "no_entries g" "call_throws g = None" "reply_names c g = Map.empty" for c
    using reply_examples(2) no_entries_no_names [of g] by (simp_all add: g_def)
  note t2 = failed_chunk_semantics [OF second_rejects_hyps(1) first_chunk_hyps, of g]
  with g obtain w2 where
    3: "resolveAddresses (net_always g) world_ready [addr_A, addr_B]
        = resolve_chunks (net_always g) True [[addr_B]] (Map.empty, w2)"
    and w2: "calls w2 = [(5000, [addr_A], multicall_layout [addr_A])]"
    by (auto simp: world_ready_fields simp del: resolve_chunks.simps)
  have 4: "fst (resolveAddresses (net_always g) world_ready [addr_A, addr_B]) = Inr Map.empty"
    unfolding 3 always_one_chunk [OF g(2) VALID_ADDR_A_B(2)] by (simp add: g)
  have 5: "map call_chunk (calls (snd (resolveAddresses (net_always g) world_ready
             [addr_A, addr_B]))) = [[addr_A], [addr_B]]"
    unfolding 3 always_one_chunk [OF g(2) VALID_ADDR_A_B(2)] by (simp add: after_call_def w2)
  note t3 = failed_chunk_semantics [OF second_rejects_hyps(1) first_chunk_hyps,
      of "Result huge_payload"]
  with reply_examples(3)
  have 6: "resolveAddresses (net_always (Result huge_payload)) world_ready [addr_A, addr_B]
     = (Inl RangeError, after_call world_ready [addr_A] (multicall_layout [addr_A]) 100)"
    by simp
  show ?thesis
    by (intro conjI second_rejects_hyps reply_examples 1 2 k 7 4 [unfolded g_def]
        5 [unfolded g_def] 6)
qed

lemma rejects_example:
  "resolveWithCooldown net_second_rejects (world_of (config_of True 1)) [addr_A, addr_B, addr_A]
   = (Inl NetworkError, after_call world_one_done [addr_B] (multicall_layout [addr_B]) 100)"
  using failed_chunk_throws [OF second_rejects_hyps reply_examples(1)]
  by (simp add: resolveWithCooldown_cooled cooled_world_of)

text \<open>The claim as first stated fails. With three chunks of which the second is
  rejected, the exception leaves the resolver, and the third chunk is never called.\<close>

theorem failed_chunk_counterexample:
  "fst (resolveWithCooldown net_second_rejects (world_of (config_of True 1))
          [addr_A, addr_B, addr_A]) = Inl NetworkError
   \<and> map call_chunk
        (calls (snd (resolveWithCooldown net_second_rejects (world_of (config_of True 1))
                       [addr_A, addr_B, addr_A])))
     = [[addr_A], [addr_B]]"
  by (simp add: rejects_example) (simp add: after_call_def world_one_done_def)


end
